theory Spec2Isabelle
  imports Complex_Main
begin

section \<open>Binary sampling: the counting functions of BinarySampling.ipynb\<close>

text \<open>
  The notebook computes exact hypergeometric counts with Python's unbounded integers and
  turns two counts into a probability with the true division \<^verbatim>\<open>/\<close>, which yields a
  binary64 float. Python integers are modelled by \<^typ>\<open>int\<close>, a finite float by the
  rational number it denotes, and every exception by a value \<open>Inl e\<close> of a sum type.

  \<^verbatim>\<open>math.factorial\<close> refuses an argument above the largest C \<^verbatim>\<open>long\<close> of the platform
  (\<open>2 ^ 63 - 1\<close> on 64-bit Linux and macOS, \<open>2 ^ 31 - 1\<close> on Windows). The notebook does not
  fix the platform, so that bound is the parameter \<open>long_max\<close> of every function that
  reaches \<^verbatim>\<open>math.factorial\<close>.
\<close>

subsection \<open>Exceptions\<close>

datatype error = ValueError | ZeroDivisionError | OverflowError

subsection \<open>The exact counter\<close>

text \<open>
  \<^verbatim>\<open>math.factorial(n)\<close> raises ValueError on a negative argument and OverflowError on an
  argument above \<open>long_max\<close>; otherwise it returns \<open>n!\<close>.
\<close>

definition factorial :: "int \<Rightarrow> int \<Rightarrow> error + int" where
  "factorial long_max n =
     (if n < 0 then Inl ValueError
      else if long_max < n then Inl OverflowError
      else Inr (fact (nat n)))"

text \<open>
  \<^verbatim>\<open>
  def choose(n, k):
      if n < k:
          return 0
      else:
          return math.factorial(n) // (math.factorial(n - k) * math.factorial(k))
  \<close>
  The three factorials are evaluated from left to right; \<^verbatim>\<open>//\<close> is floor division.
\<close>

definition choose_py :: "int \<Rightarrow> int \<Rightarrow> int \<Rightarrow> error + int" where
  "choose_py long_max n k =
     (if n < k then Inr 0
      else case factorial long_max n of Inl e \<Rightarrow> Inl e | Inr fn \<Rightarrow>
           (case factorial long_max (n - k) of Inl e \<Rightarrow> Inl e | Inr fnk \<Rightarrow>
           (case factorial long_max k of Inl e \<Rightarrow> Inl e | Inr fk \<Rightarrow> Inr (fn div (fnk * fk)))))"

subsection \<open>The mass function and the three sums\<close>

text \<open>
  \<^verbatim>\<open>return choose(jar_blues, sample_blues) * choose(jar_size - jar_blues, sample_size - sample_blues)\<close>
  Both operands of the product are evaluated, the left one first.
\<close>

definition ways_to_get_specific_sample_from_specific_jar :: "int \<Rightarrow> int \<Rightarrow> int \<Rightarrow> int \<Rightarrow> int \<Rightarrow> error + int" where
  "ways_to_get_specific_sample_from_specific_jar long_max jar_size jar_blues sample_size sample_blues =
     (case choose_py long_max jar_blues sample_blues of Inl e \<Rightarrow> Inl e | Inr x \<Rightarrow>
      (case choose_py long_max (jar_size - jar_blues) (sample_size - sample_blues) of
         Inl e \<Rightarrow> Inl e | Inr y \<Rightarrow> Inr (x * y)))"

text \<open>
  The loop \<^verbatim>\<open>for v in range(...): tally += f(v)\<close> shared by the three sums: the values of
  the range are visited in order, and an exception raised by a term ends the loop.
\<close>

fun tally_loop :: "(int \<Rightarrow> error + int) \<Rightarrow> int list \<Rightarrow> int \<Rightarrow> error + int" where
  "tally_loop f [] tally = Inr tally"
| "tally_loop f (v # vs) tally =
     (case f v of Inl e \<Rightarrow> Inl e | Inr w \<Rightarrow> tally_loop f vs (tally + w))"

text \<open>\<^verbatim>\<open>for b in range(sample_size + 1)\<close>: the values \<open>0, ..., sample_size\<close>.\<close>

definition ways_to_get_all_samples_of_given_size_from_specific_jar :: "int \<Rightarrow> int \<Rightarrow> int \<Rightarrow> int \<Rightarrow> error + int" where
  "ways_to_get_all_samples_of_given_size_from_specific_jar long_max jar_size jar_blues sample_size =
     tally_loop (\<lambda>b. ways_to_get_specific_sample_from_specific_jar long_max jar_size jar_blues sample_size b)
       [0..sample_size] 0"

text \<open>\<^verbatim>\<open>for B in range(jar_size + 1)\<close>: the values \<open>0, ..., jar_size\<close>.\<close>

definition ways_to_get_specific_sample_from_all_jars_of_given_size :: "int \<Rightarrow> int \<Rightarrow> int \<Rightarrow> int \<Rightarrow> error + int" where
  "ways_to_get_specific_sample_from_all_jars_of_given_size long_max jar_size sample_size sample_blues =
     tally_loop (\<lambda>B. ways_to_get_specific_sample_from_specific_jar long_max jar_size B sample_size sample_blues)
       [0..jar_size] 0"

text \<open>\<^verbatim>\<open>for B in range(lower, upper + 1)\<close>: the values \<open>lower, ..., upper\<close>.\<close>

definition ways_to_get_specific_sample_from_interval_of_jars :: "int \<Rightarrow> int \<Rightarrow> int \<Rightarrow> int \<Rightarrow> int \<Rightarrow> int \<Rightarrow> error + int" where
  "ways_to_get_specific_sample_from_interval_of_jars long_max jar_size lower upper sample_size sample_blues =
     tally_loop (\<lambda>B. ways_to_get_specific_sample_from_specific_jar long_max jar_size B sample_size sample_blues)
       [lower..upper] 0"

subsection \<open>Binary64 floats\<close>

text \<open>
  A finite float is the rational it denotes. \<open>round_double\<close> rounds a rational to the
  nearest number with a 53-bit significand and an exponent of at least \<open>-1022\<close> (so that
  the spacing never falls below \<open>2 powi (-1074)\<close>: gradual underflow), ties going to the
  even significand. The exponent is not bounded above here; a rounded value of magnitude
  \<open>2 ^ 1024\<close> or more is an overflow, which each operation treats in its own way.
\<close>

fun bit_length :: "nat \<Rightarrow> nat" where
  "bit_length n = (if n = 0 then 0 else Suc (bit_length (n div 2)))"

declare bit_length.simps [simp del]

text \<open>For \<open>0 < q\<close>, the integer \<open>e\<close> with \<open>2 powi e \<le> q < 2 powi (e + 1)\<close>.\<close>

definition ilog2 :: "rat \<Rightarrow> int" where
  "ilog2 q = (if 1 \<le> q then int (bit_length (nat \<lfloor>q\<rfloor>)) - 1
              else - int (bit_length (nat (\<lceil>1 / q\<rceil> - 1))))"

definition round_half_even :: "rat \<Rightarrow> int" where
  "round_half_even x =
     (let f = \<lfloor>x\<rfloor>; d = x - of_int f
      in if d < 1 / 2 then f else if 1 / 2 < d then f + 1 else if even f then f else f + 1)"

text \<open>The exponent used for \<open>q\<close>, and the spacing of the floats at that exponent.\<close>

definition binade :: "rat \<Rightarrow> int" where
  "binade q = max (ilog2 \<bar>q\<bar>) (- 1022)"

definition ulp_of :: "rat \<Rightarrow> rat" where
  "ulp_of q = 2 powi (binade q - 52)"

definition round_double :: "rat \<Rightarrow> rat" where
  "round_double q =
     (if q = 0 then 0
      else sgn q * of_int (round_half_even (\<bar>q\<bar> / ulp_of q)) * ulp_of q)"

definition double_overflow :: "rat \<Rightarrow> bool" where
  "double_overflow r = (2 ^ 1024 \<le> \<bar>r\<bar>)"

text \<open>
  \<^verbatim>\<open>a / b\<close> on two integers: ZeroDivisionError for a zero divisor; otherwise the exact
  quotient correctly rounded, and OverflowError when the rounded quotient is too large
  for a float.
\<close>

definition int_true_divide :: "int \<Rightarrow> int \<Rightarrow> error + rat" where
  "int_true_divide a b =
     (if b = 0 then Inl ZeroDivisionError
      else let r = round_double (of_int a / of_int b)
           in if double_overflow r then Inl OverflowError else Inr r)"

text \<open>The conversion of an integer operand of a float product; it raises when too large.\<close>

definition int_to_float :: "int \<Rightarrow> error + rat" where
  "int_to_float a =
     (let r = round_double (of_int a)
      in if double_overflow r then Inl OverflowError else Inr r)"

text \<open>\<^verbatim>\<open>int(x)\<close> on a finite float truncates towards zero.\<close>

definition float_to_int :: "rat \<Rightarrow> int" where
  "float_to_int x = (if 0 \<le> x then \<lfloor>x\<rfloor> else \<lceil>x\<rceil>)"

subsection \<open>The probabilities\<close>

text \<open>
  Each probability is \<^verbatim>\<open>p = (numerator / denominator)\<close>: the numerator is evaluated
  first, then the denominator, then the true division.
\<close>

definition probability_of_getting_specific_sample_from_specific_jar :: "int \<Rightarrow> int \<Rightarrow> int \<Rightarrow> int \<Rightarrow> int \<Rightarrow> error + rat" where
  "probability_of_getting_specific_sample_from_specific_jar long_max jar_size jar_blues sample_size sample_blues =
     (case ways_to_get_specific_sample_from_specific_jar long_max jar_size jar_blues sample_size sample_blues of
        Inl e \<Rightarrow> Inl e
      | Inr num \<Rightarrow>
        (case ways_to_get_all_samples_of_given_size_from_specific_jar long_max jar_size jar_blues sample_size of
           Inl e \<Rightarrow> Inl e
         | Inr den \<Rightarrow> int_true_divide num den))"

definition probability_that_specific_sample_came_from_specific_jar :: "int \<Rightarrow> int \<Rightarrow> int \<Rightarrow> int \<Rightarrow> int \<Rightarrow> error + rat" where
  "probability_that_specific_sample_came_from_specific_jar long_max jar_size jar_blues sample_size sample_blues =
     (case ways_to_get_specific_sample_from_specific_jar long_max jar_size jar_blues sample_size sample_blues of
        Inl e \<Rightarrow> Inl e
      | Inr num \<Rightarrow>
        (case ways_to_get_specific_sample_from_all_jars_of_given_size long_max jar_size sample_size sample_blues of
           Inl e \<Rightarrow> Inl e
         | Inr den \<Rightarrow> int_true_divide num den))"

definition probability_that_specific_sample_came_from_interval_of_jars :: "int \<Rightarrow> int \<Rightarrow> int \<Rightarrow> int \<Rightarrow> int \<Rightarrow> int \<Rightarrow> error + rat" where
  "probability_that_specific_sample_came_from_interval_of_jars long_max jar_size lower upper sample_size sample_blues =
     (case ways_to_get_specific_sample_from_interval_of_jars long_max jar_size lower upper sample_size sample_blues of
        Inl e \<Rightarrow> Inl e
      | Inr num \<Rightarrow>
        (case ways_to_get_specific_sample_from_all_jars_of_given_size long_max jar_size sample_size sample_blues of
           Inl e \<Rightarrow> Inl e
         | Inr den \<Rightarrow> int_true_divide num den))"

subsection \<open>The point estimate and the interval search\<close>

text \<open>
  \<^verbatim>\<open>return int(sample_blues * (jar_size / sample_size))\<close>
  The quotient is a float; the integer factor is converted to a float and the product is
  rounded again. A product too large for a float is infinite, and \<^verbatim>\<open>int\<close> of an infinite
  float raises OverflowError.
\<close>

definition B_guess :: "int \<Rightarrow> int \<Rightarrow> int \<Rightarrow> error + int" where
  "B_guess jar_size sample_size sample_blues =
     (case int_true_divide jar_size sample_size of
        Inl e \<Rightarrow> Inl e
      | Inr ratio \<Rightarrow>
        (case int_to_float sample_blues of
           Inl e \<Rightarrow> Inl e
         | Inr blues \<Rightarrow>
           (let product = round_double (blues * ratio)
            in if double_overflow product then Inl OverflowError
               else Inr (float_to_int product))))"

text \<open>
  \<^verbatim>\<open>
  while p < confidence:
      delta +=1
      p = probability_that_specific_sample_came_from_interval_of_jars(jar_size, Bg - delta, Bg + delta, sample_size, sample_blues)
  else:
      Dg = delta
  \<close>
  The loop state is \<open>(delta, p)\<close>. The loop has no bound in the source, so the model is a
  partial function: \<open>None\<close> stands for a loop that never ends, \<open>Some (Inl e)\<close> for an
  exception raised in the body, \<open>Some (Inr delta)\<close> for the value \<open>Dg\<close> at the exit.
\<close>

partial_function (option) theta_loop :: "int \<Rightarrow> int \<Rightarrow> int \<Rightarrow> int \<Rightarrow> int \<Rightarrow> rat \<Rightarrow> int \<Rightarrow> rat \<Rightarrow> (error + int) option" where
  "theta_loop long_max jar_size Bg sample_size sample_blues confidence delta p =
     (if p < confidence then
        (let delta' = delta + 1;
             r = probability_that_specific_sample_came_from_interval_of_jars long_max
                   jar_size (Bg - delta') (Bg + delta') sample_size sample_blues
         in if isl r then Some (Inl (projl r))
            else theta_loop long_max jar_size Bg sample_size sample_blues confidence delta' (projr r))
      else Some (Inr delta))"

text \<open>
  \<^verbatim>\<open>
  Bg = B_guess(jar_size, sample_size, sample_blues)
  delta = 1
  p = probability_that_specific_sample_came_from_interval_of_jars(jar_size, Bg - delta, Bg + delta, sample_size, sample_blues)
  while ...
  return (Bg, Dg)
  \<close>
\<close>

definition theta :: "int \<Rightarrow> int \<Rightarrow> int \<Rightarrow> int \<Rightarrow> rat \<Rightarrow> (error + int \<times> int) option" where
  "theta long_max jar_size sample_size sample_blues confidence =
     (case B_guess jar_size sample_size sample_blues of
        Inl e \<Rightarrow> Some (Inl e)
      | Inr Bg \<Rightarrow>
        (case probability_that_specific_sample_came_from_interval_of_jars long_max
                jar_size (Bg - 1) (Bg + 1) sample_size sample_blues of
           Inl e \<Rightarrow> Some (Inl e)
         | Inr p \<Rightarrow>
           (case theta_loop long_max jar_size Bg sample_size sample_blues confidence 1 p of
              None \<Rightarrow> None
            | Some (Inl e) \<Rightarrow> Some (Inl e)
            | Some (Inr Dg) \<Rightarrow> Some (Inr (Bg, Dg)))))"

subsection \<open>The mathematical counts\<close>

text \<open>
  The binomial coefficient on integers, zero outside \<open>0 \<le> k \<le> n\<close>, and the number of
  ways to draw a sample with \<open>b\<close> blues out of \<open>s\<close> from a jar with \<open>B\<close> blues out of \<open>N\<close>.
  They are what the counting functions are compared with.
\<close>

definition binom :: "int \<Rightarrow> int \<Rightarrow> int" where
  "binom n k = (if 0 \<le> k \<and> k \<le> n then int (nat n choose nat k) else 0)"

definition mass :: "int \<Rightarrow> int \<Rightarrow> int \<Rightarrow> int \<Rightarrow> int" where
  "mass N s b B = binom B b * binom (N - B) (s - b)"

text \<open>
  The value of the interval probability at half-width \<open>d\<close> around the centre \<open>Bg\<close>, and
  what it means for a float \<open>p\<close> to be the quotient of two counts correctly rounded.
\<close>

definition interval_value :: "int \<Rightarrow> int \<Rightarrow> int \<Rightarrow> int \<Rightarrow> int \<Rightarrow> rat" where
  "interval_value N Bg s b d =
     round_double (rat_of_int (\<Sum>v = Bg - d..Bg + d. mass N s b v) / rat_of_int (\<Sum>v = 0..N. mass N s b v))"

definition ratio_extracted :: "rat \<Rightarrow> int \<Rightarrow> int \<Rightarrow> bool" where
  "ratio_extracted p num den =
     (let q = rat_of_int num / rat_of_int den
      in p = round_double q \<and> 0 \<le> p \<and> p \<le> 1
         \<and> (if 2 powi (- 1022) \<le> q then \<bar>p - q\<bar> \<le> q / 2 ^ 53 else \<bar>p - q\<bar> \<le> 2 powi (- 1075)))"

text \<open>
  The half-width at which the interval around the centre \<open>Bg\<close> covers \<open>[0, N]\<close>: the search
  never has to go past it.
\<close>

definition covering_half_width :: "int \<Rightarrow> int \<Rightarrow> int" where
  "covering_half_width N Bg = max 1 (max \<bar>Bg\<bar> \<bar>N - Bg\<bar>)"

declare theta_loop.simps [code]

section \<open>The exact counter and the sums\<close>

lemma binom_nonneg: "0 \<le> binom n k"
  by (simp add: binom_def)

lemma binom_pos_iff: "0 < binom n k \<longleftrightarrow> 0 \<le> k \<and> k \<le> n"
  by (auto simp: binom_def)

lemma factorial_value: "0 \<le> n \<Longrightarrow> n \<le> lm \<Longrightarrow> factorial lm n = Inr (fact (nat n))"
  by (simp add: factorial_def)

lemma factorial_negative: "n < 0 \<Longrightarrow> factorial lm n = Inl ValueError"
  by (simp add: factorial_def)

lemma factorial_overflow: "0 \<le> n \<Longrightarrow> lm < n \<Longrightarrow> factorial lm n = Inl OverflowError"
  by (simp add: factorial_def)

lemma fact_div_binomial:
  assumes "k \<le> n"
  shows "(fact n :: int) div (fact (n - k) * fact k) = int (n choose k)"
proof -
  have "fact k * fact (n - k) * (n choose k) = fact n"
    using assms by (rule binomial_fact_lemma)
  then have "int (fact k * fact (n - k) * (n choose k)) = int (fact n)"
    by simp
  then have eq: "(fact n :: int) = int (n choose k) * (fact (n - k) * fact k)"
    by (simp add: mult_ac)
  have nz: "(fact (n - k) * fact k :: int) \<noteq> 0"
    by simp
  show ?thesis
    by (subst eq) (simp only: nonzero_mult_div_cancel_right [OF nz])
qed

lemma choose_py_exact:
  assumes "0 \<le> k" "n \<le> lm \<or> n < k"
  shows "choose_py lm n k = Inr (binom n k)"
proof (cases "n < k")
  case True
  then show ?thesis by (simp add: choose_py_def binom_def)
next
  case False
  with assms have n: "0 \<le> n" "k \<le> n" "0 \<le> n - k" "n \<le> lm" "n - k \<le> lm" "k \<le> lm" by auto
  have le: "nat k \<le> nat n" using n assms by simp
  have "choose_py lm n k = Inr (fact (nat n) div (fact (nat (n - k)) * fact (nat k)))"
    using False n assms by (simp add: choose_py_def factorial_value)
  also have "nat (n - k) = nat n - nat k"
    using n assms by (simp add: nat_diff_distrib)
  also have "(fact (nat n) :: int) div (fact (nat n - nat k) * fact (nat k)) = int (nat n choose nat k)"
    using le by (rule fact_div_binomial)
  finally show ?thesis using n assms by (simp add: binom_def)
qed

lemma choose_py_overflow:
  assumes "0 \<le> k" "k \<le> n" "lm < n"
  shows "choose_py lm n k = Inl OverflowError"
  using assms by (simp add: choose_py_def factorial_def)

lemma choose_py_negative_k:
  assumes "k < 0"
  shows "choose_py lm n k =
           (if n < k then Inr 0
            else if n < 0 \<or> n - k \<le> lm then Inl ValueError
            else Inl OverflowError)"
  using assms by (auto simp: choose_py_def factorial_def)

lemma choose_py_nonneg_cases:
  assumes "0 \<le> k"
  shows "choose_py lm n k = Inr (binom n k) \<or> choose_py lm n k = Inl OverflowError"
proof (cases "n \<le> lm \<or> n < k")
  case True
  then show ?thesis using assms by (simp add: choose_py_exact)
next
  case False
  then show ?thesis using assms by (simp add: choose_py_overflow)
qed

lemma ways_exact:
  assumes "0 \<le> b" "b \<le> s" "B \<le> lm" "N - B \<le> lm"
  shows "ways_to_get_specific_sample_from_specific_jar lm N B s b = Inr (binom B b * binom (N - B) (s - b))"
  using assms by (simp add: ways_to_get_specific_sample_from_specific_jar_def choose_py_exact)

lemma ways_cases:
  assumes "0 \<le> b" "b \<le> s"
  shows "ways_to_get_specific_sample_from_specific_jar lm N B s b = Inr (binom B b * binom (N - B) (s - b))
         \<or> ways_to_get_specific_sample_from_specific_jar lm N B s b = Inl OverflowError"
  using choose_py_nonneg_cases [of b lm B] choose_py_nonneg_cases [of "s - b" lm "N - B"] assms
  by (auto simp: ways_to_get_specific_sample_from_specific_jar_def)

lemma tally_loop_exact:
  assumes "\<And>v. v \<in> set vs \<Longrightarrow> f v = Inr (g v)"
  shows "tally_loop f vs t = Inr (t + sum_list (map g vs))"
  using assms
proof (induction vs arbitrary: t)
  case Nil
  then show ?case by simp
next
  case (Cons v vs)
  have "f v = Inr (g v)" using Cons.prems by simp
  moreover have "tally_loop f vs (t + g v) = Inr (t + g v + sum_list (map g vs))"
    using Cons.prems by (intro Cons.IH) simp
  ultimately show ?case by simp
qed

lemma tally_loop_upto:
  assumes "\<And>v. i \<le> v \<Longrightarrow> v \<le> j \<Longrightarrow> f v = Inr (g v)"
  shows "tally_loop f [i..j] 0 = Inr (\<Sum>v = i..j. g v)"
proof -
  have "tally_loop f [i..j] 0 = Inr (0 + sum_list (map g [i..j]))"
    using assms by (intro tally_loop_exact) simp
  also have "sum_list (map g [i..j]) = (\<Sum>v = i..j. g v)"
    by (simp flip: sum_set_upto_conv_sum_list_int)
  finally show ?thesis by simp
qed

lemma vandermonde_int:
  assumes "0 \<le> B" "B \<le> N" "0 \<le> s"
  shows "(\<Sum>v = 0..s. binom B v * binom (N - B) (s - v)) = binom N s"
proof -
  define m where "m = nat B"
  define n where "n = nat (N - B)"
  define r where "r = nat s"
  have "(\<Sum>v = 0..s. binom B v * binom (N - B) (s - v))
        = (\<Sum>k\<le>r. int ((m choose k) * (n choose (r - k))))"
  proof (rule sum.reindex_bij_witness [where i = int and j = nat])
    fix k assume "k \<in> {..r}"
    then show "nat (int k) = k" "int k \<in> {0..s}"
      using assms by (simp_all add: r_def)
  next
    fix v assume "v \<in> {0..s}"
    then have v: "0 \<le> v" "v \<le> s" by simp_all
    show "int (nat v) = v" "nat v \<in> {..r}"
      using v by (simp_all add: r_def)
    have "binom B v = int (m choose nat v)"
      using assms v by (auto simp: binom_def m_def binomial_eq_0)
    moreover have "binom (N - B) (s - v) = int (n choose (r - nat v))"
    proof -
      have sk: "nat (s - v) = r - nat v" "0 \<le> s - v"
        using v assms by (simp_all add: r_def nat_diff_distrib)
      show ?thesis
      proof (cases "s - v \<le> N - B")
        case True
        then show ?thesis using sk by (simp add: binom_def n_def)
      next
        case False
        then have "n < r - nat v" using sk assms unfolding n_def by linarith
        then show ?thesis using False by (simp add: binom_def binomial_eq_0)
      qed
    qed
    ultimately show "int ((m choose nat v) * (n choose (r - nat v))) = binom B v * binom (N - B) (s - v)"
      by simp
  qed
  also have "\<dots> = int (\<Sum>k\<le>r. (m choose k) * (n choose (r - k)))"
    by simp
  also have "\<dots> = int ((m + n) choose r)"
    by (simp only: vandermonde)
  also have "m + n = nat N"
    using assms by (simp add: m_def n_def)
  finally show ?thesis
    using assms by (simp add: binom_def r_def binomial_eq_0)
qed

lemma tally_loop_cases:
  assumes "\<And>v. v \<in> set vs \<Longrightarrow> f v = Inr (g v) \<or> f v = Inl e"
  shows "tally_loop f vs t = Inr (t + sum_list (map g vs)) \<or> tally_loop f vs t = Inl e"
  using assms
proof (induction vs arbitrary: t)
  case Nil
  then show ?case by simp
next
  case (Cons v vs)
  have "f v = Inr (g v) \<or> f v = Inl e" using Cons.prems by simp
  moreover have "tally_loop f vs (t + g v) = Inr (t + g v + sum_list (map g vs))
                 \<or> tally_loop f vs (t + g v) = Inl e"
    using Cons.prems by (intro Cons.IH) simp
  ultimately show ?case by auto
qed

lemma tally_loop_upto_cases:
  assumes "\<And>v. i \<le> v \<Longrightarrow> v \<le> j \<Longrightarrow> f v = Inr (g v) \<or> f v = Inl e"
  shows "tally_loop f [i..j] 0 = Inr (\<Sum>v = i..j. g v) \<or> tally_loop f [i..j] 0 = Inl e"
proof -
  have "tally_loop f [i..j] 0 = Inr (0 + sum_list (map g [i..j])) \<or> tally_loop f [i..j] 0 = Inl e"
    using assms by (intro tally_loop_cases) simp
  moreover have "sum_list (map g [i..j]) = (\<Sum>v = i..j. g v)"
    by (simp flip: sum_set_upto_conv_sum_list_int)
  ultimately show ?thesis by simp
qed

lemma tally_loop_first_raises:
  assumes "i \<le> j" "f i = Inl e"
  shows "tally_loop f [i..j] t = Inl e"
proof -
  have "[i..j] = i # [i + 1..j]" using assms(1) by (rule upto_rec1)
  then show ?thesis using assms(2) by simp
qed

lemma tally_loop_last_raises:
  assumes "i \<le> j" "f j = Inl e" "\<And>v. i \<le> v \<Longrightarrow> v < j \<Longrightarrow> f v = Inr (g v) \<or> f v = Inl e"
  shows "tally_loop f [i..j] 0 = Inl e"
proof -
  have split: "[i..j] = [i..j - 1] @ [j]" using assms(1) by (rule upto_rec2)
  have append: "tally_loop f (xs @ [j]) t = Inl e" if "\<And>v. v \<in> set xs \<Longrightarrow> f v = Inr (g v) \<or> f v = Inl e" for xs t
    using that
  proof (induction xs arbitrary: t)
    case Nil
    then show ?case using assms(2) by simp
  next
    case (Cons v vs)
    have "f v = Inr (g v) \<or> f v = Inl e" using Cons.prems by simp
    moreover have "tally_loop f (vs @ [j]) (t + g v) = Inl e"
      using Cons.prems by (intro Cons.IH) simp
    ultimately show ?case by auto
  qed
  show ?thesis
    unfolding split using assms(3) by (intro append) simp
qed

lemma all_samples_exact:
  assumes "0 \<le> B" "B \<le> N" "0 \<le> s" "N \<le> lm"
  shows "ways_to_get_all_samples_of_given_size_from_specific_jar lm N B s = Inr (binom N s)"
proof -
  have "ways_to_get_all_samples_of_given_size_from_specific_jar lm N B s
        = Inr (\<Sum>v = 0..s. binom B v * binom (N - B) (s - v))"
    unfolding ways_to_get_all_samples_of_given_size_from_specific_jar_def
    using assms by (intro tally_loop_upto ways_exact) simp_all
  then show ?thesis using assms by (simp add: vandermonde_int)
qed

section \<open>Properties of the rounding\<close>

lemma bit_length_bounds:
  "0 < n \<Longrightarrow> 2 ^ (bit_length n - 1) \<le> n \<and> n < 2 ^ bit_length n"
proof (induction n rule: bit_length.induct)
  case (1 n)
  show ?case
  proof (cases "n div 2 = 0")
    case True
    then have "n = 1" using "1.prems" by (auto simp: div_eq_0_iff)
    then show ?thesis by (simp add: bit_length.simps)
  next
    case False
    then have IH: "2 ^ (bit_length (n div 2) - 1) \<le> n div 2" "n div 2 < 2 ^ bit_length (n div 2)"
      using "1.IH" "1.prems" by simp_all
    have bl: "bit_length n = Suc (bit_length (n div 2))"
      using "1.prems" by (subst bit_length.simps) simp
    have pos: "0 < bit_length (n div 2)"
      using False by (subst bit_length.simps) simp
    then have "(2::nat) ^ bit_length (n div 2) = 2 * 2 ^ (bit_length (n div 2) - 1)"
      by (cases "bit_length (n div 2)") simp_all
    with IH have "2 ^ bit_length (n div 2) \<le> n" by linarith
    moreover from IH have "n < 2 * 2 ^ bit_length (n div 2)" by linarith
    ultimately show ?thesis by (simp add: bl)
  qed
qed

lemma bit_length_pos: "0 < n \<Longrightarrow> 0 < bit_length n"
  by (subst bit_length.simps) simp

lemma ilog2_bounds:
  assumes "0 < q"
  shows "2 powi (ilog2 q) \<le> q" and "q < 2 powi (ilog2 q + 1)"
proof -
  have "2 powi (ilog2 q) \<le> q \<and> q < 2 powi (ilog2 q + 1)"
  proof (cases "1 \<le> q")
    case True
    define m where "m = nat \<lfloor>q\<rfloor>"
    have fl: "1 \<le> \<lfloor>q\<rfloor>" using True by (simp add: le_floor_iff)
    then have m: "0 < m" "int m = \<lfloor>q\<rfloor>" by (simp_all add: m_def)
    have lo: "rat_of_nat m \<le> q"
    proof -
      have "rat_of_int (int m) \<le> q" unfolding m by (rule of_int_floor_le)
      then show ?thesis by simp
    qed
    have hi: "q < rat_of_nat m + 1"
    proof -
      have "q < rat_of_int (int m) + 1" unfolding m using floor_correct [of q] by simp
      then show ?thesis by simp
    qed
    note b = bit_length_bounds [OF m(1)]
    have k: "0 < bit_length m" using m(1) by (rule bit_length_pos)
    have il: "ilog2 q = int (bit_length m - 1)" and il2: "ilog2 q + 1 = int (bit_length m)"
      using True k by (simp_all add: ilog2_def m_def of_nat_diff)
    have "(2::rat) ^ (bit_length m - 1) \<le> rat_of_nat m"
      using b by simp
    then have "(2::rat) ^ (bit_length m - 1) \<le> q"
      using lo by (rule order_trans)
    then have A: "2 powi (ilog2 q) \<le> q"
      by (simp only: il power_int_of_nat)
    have "m + 1 \<le> 2 ^ bit_length m" using b by simp
    then have "rat_of_nat (m + 1) \<le> 2 ^ bit_length m"
      by (simp del: of_nat_add of_nat_Suc)
    then have "rat_of_nat m + 1 \<le> 2 ^ bit_length m"
      by simp
    with hi have "q < 2 ^ bit_length m"
      by (rule less_le_trans)
    then have B: "q < 2 powi (ilog2 q + 1)"
      by (simp only: il2 power_int_of_nat)
    from A B show ?thesis by simp
  next
    case False
    define x where "x = 1 / q"
    define m where "m = nat (\<lceil>x\<rceil> - 1)"
    have x1: "1 < x" using False assms by (simp add: x_def)
    have qx: "q = 1 / x" by (simp add: x_def)
    have c2: "2 \<le> \<lceil>x\<rceil>" using x1 by (simp add: le_ceiling_iff)
    then have m: "0 < m" "int m = \<lceil>x\<rceil> - 1" by (simp_all add: m_def)
    have lo: "rat_of_nat m < x"
    proof -
      have "rat_of_int \<lceil>x\<rceil> - 1 < x" using ceiling_correct [of x] by simp
      moreover have "rat_of_int (int m) = rat_of_int \<lceil>x\<rceil> - 1" unfolding m by simp
      ultimately show ?thesis by simp
    qed
    have hi: "x \<le> rat_of_nat m + 1"
    proof -
      have "x \<le> rat_of_int \<lceil>x\<rceil>" by (rule le_of_int_ceiling)
      moreover have "rat_of_int (int m) = rat_of_int \<lceil>x\<rceil> - 1" unfolding m by simp
      ultimately show ?thesis by simp
    qed
    note b = bit_length_bounds [OF m(1)]
    have k: "0 < bit_length m" using m(1) by (rule bit_length_pos)
    have il: "ilog2 q = - int (bit_length m)" and il2: "ilog2 q + 1 = - int (bit_length m - 1)"
      using False k by (simp_all add: ilog2_def m_def x_def of_nat_diff)
    have "m + 1 \<le> 2 ^ bit_length m" using b by simp
    then have "rat_of_nat (m + 1) \<le> 2 ^ bit_length m"
      by (simp del: of_nat_add of_nat_Suc)
    then have "rat_of_nat m + 1 \<le> 2 ^ bit_length m"
      by simp
    with hi have xle: "x \<le> 2 ^ bit_length m"
      by (rule order_trans)
    have "(2::rat) ^ (bit_length m - 1) \<le> rat_of_nat m"
      using b by simp
    then have xgt: "2 ^ (bit_length m - 1) < x"
      using lo by (rule le_less_trans)
    have xpos: "0 < x" using x1 by simp
    have e1: "2 powi (ilog2 q) = (1::rat) / 2 ^ bit_length m"
      unfolding il by (simp add: power_int_minus inverse_eq_divide)
    have e2: "2 powi (ilog2 q + 1) = (1::rat) / 2 ^ (bit_length m - 1)"
      unfolding il2 by (simp add: power_int_minus inverse_eq_divide)
    have "1 / 2 ^ bit_length m \<le> 1 / x"
      using xle xpos by (simp add: frac_le)
    then have A: "2 powi (ilog2 q) \<le> q"
      unfolding e1 by (simp add: x_def)
    have "1 / x < 1 / 2 ^ (bit_length m - 1)"
      using xgt by (simp add: frac_less2)
    then have B: "q < 2 powi (ilog2 q + 1)"
      unfolding e2 by (simp add: x_def)
    from A B show ?thesis by simp
  qed
  then show "2 powi (ilog2 q) \<le> q" and "q < 2 powi (ilog2 q + 1)" by simp_all
qed

lemma powi2_less_imp: "(2::rat) powi a < 2 powi b \<Longrightarrow> a < b"
  using power_int_increasing [of b a "2::rat"] by (cases "a < b") auto

lemma powi2_le: "a \<le> b \<Longrightarrow> (2::rat) powi a \<le> 2 powi b"
  by (rule power_int_increasing) simp_all

lemma ilog2_mono:
  assumes "0 < q" "q \<le> r"
  shows "ilog2 q \<le> ilog2 r"
proof -
  have "2 powi (ilog2 q) \<le> q" using assms by (intro ilog2_bounds) 
  also have "q \<le> r" by fact
  also have "r < 2 powi (ilog2 r + 1)" using assms by (intro ilog2_bounds) simp
  finally have "ilog2 q < ilog2 r + 1" by (rule powi2_less_imp)
  then show ?thesis by simp
qed

lemma round_half_even_cases:
  "round_half_even x = \<lfloor>x\<rfloor> \<or> round_half_even x = \<lfloor>x\<rfloor> + 1"
  by (simp add: round_half_even_def Let_def)

lemma round_half_even_error: "\<bar>rat_of_int (round_half_even x) - x\<bar> \<le> 1 / 2"
proof -
  have "rat_of_int \<lfloor>x\<rfloor> \<le> x" "x < rat_of_int \<lfloor>x\<rfloor> + 1"
    using floor_correct [of x] by simp_all
  then show ?thesis
    by (auto simp: round_half_even_def Let_def)
qed

lemma round_half_even_of_int [simp]: "round_half_even (rat_of_int n) = n"
  by (simp add: round_half_even_def)

lemma round_half_even_mono:
  assumes "x \<le> y"
  shows "round_half_even x \<le> round_half_even y"
proof (cases "\<lfloor>x\<rfloor> = \<lfloor>y\<rfloor>")
  case True
  then show ?thesis using assms
    by (auto simp: round_half_even_def Let_def)
next
  case False
  then have "\<lfloor>x\<rfloor> + 1 \<le> \<lfloor>y\<rfloor>"
    using floor_mono [OF assms] by simp
  moreover have "round_half_even x \<le> \<lfloor>x\<rfloor> + 1"
    using round_half_even_cases [of x] by auto
  moreover have "\<lfloor>y\<rfloor> \<le> round_half_even y"
    using round_half_even_cases [of y] by auto
  ultimately show ?thesis by simp
qed

lemma round_half_even_ge: "rat_of_int n \<le> x \<Longrightarrow> n \<le> round_half_even x"
  using round_half_even_mono [of "rat_of_int n" x] by simp

lemma round_half_even_le: "x \<le> rat_of_int n \<Longrightarrow> round_half_even x \<le> n"
  using round_half_even_mono [of x "rat_of_int n"] by simp

lemma ulp_of_pos: "0 < ulp_of q"
  by (simp add: ulp_of_def)

lemma ulp_of_nonzero [simp]: "ulp_of q \<noteq> 0"
  using ulp_of_pos [of q] by simp

lemma ulp_of_scale:
  "2 powi (binade q) = 2 ^ 52 * ulp_of q" "2 powi (binade q + 1) = 2 ^ 53 * ulp_of q"
proof -
  have "(2::rat) powi (binade q) = 2 powi (52 + (binade q - 52))" by simp
  also have "\<dots> = 2 powi 52 * 2 powi (binade q - 52)" by (rule power_int_add) simp
  finally show "2 powi (binade q) = 2 ^ 52 * ulp_of q" by (simp add: ulp_of_def)
  have "(2::rat) powi (binade q + 1) = 2 powi (53 + (binade q - 52))" by (simp add: add.commute)
  also have "\<dots> = 2 powi 53 * 2 powi (binade q - 52)" by (rule power_int_add) simp
  finally show "2 powi (binade q + 1) = 2 ^ 53 * ulp_of q" by (simp add: ulp_of_def)
qed

lemma round_double_pos_eq:
  "0 < q \<Longrightarrow> round_double q = rat_of_int (round_half_even (q / ulp_of q)) * ulp_of q"
  by (simp add: round_double_def)

lemma binade_upper:
  assumes "0 < q"
  shows "q < 2 powi (binade q + 1)"
proof -
  have "q < 2 powi (ilog2 q + 1)" using assms by (rule ilog2_bounds)
  also have "\<dots> \<le> 2 powi (binade q + 1)"
    using assms by (intro powi2_le) (simp add: binade_def)
  finally show ?thesis .
qed

lemma binade_lower:
  assumes "0 < q" "- 1022 \<le> ilog2 q"
  shows "2 powi (binade q) \<le> q"
proof -
  have "binade q = ilog2 q" using assms by (simp add: binade_def)
  then show ?thesis using ilog2_bounds(1) [OF assms(1)] by simp
qed

lemma binade_mono:
  assumes "0 < q" "q \<le> r"
  shows "binade q \<le> binade r"
  using ilog2_mono [OF assms] assms by (simp add: binade_def)

lemma round_double_upper:
  assumes "0 < q"
  shows "round_double q \<le> 2 powi (binade q + 1)"
proof -
  have "q < 2 ^ 53 * ulp_of q"
    using binade_upper [OF assms] by (simp only: ulp_of_scale)
  then have "q / ulp_of q \<le> rat_of_int (2 ^ 53)"
    using ulp_of_pos [of q] by (simp add: pos_divide_le_eq)
  then have "round_half_even (q / ulp_of q) \<le> 2 ^ 53"
    by (rule round_half_even_le)
  then have "rat_of_int (round_half_even (q / ulp_of q)) \<le> rat_of_int (2 ^ 53)"
    by (simp only: of_int_le_iff)
  then have "rat_of_int (round_half_even (q / ulp_of q)) * ulp_of q \<le> rat_of_int (2 ^ 53) * ulp_of q"
    using ulp_of_pos [of q] by (intro mult_right_mono) simp_all
  then show ?thesis
    using assms by (simp add: round_double_pos_eq ulp_of_scale)
qed

lemma round_double_lower:
  assumes "0 < q" "- 1022 \<le> ilog2 q"
  shows "2 powi (binade q) \<le> round_double q"
proof -
  have "2 ^ 52 * ulp_of q \<le> q"
    using binade_lower [OF assms] by (simp only: ulp_of_scale)
  then have "rat_of_int (2 ^ 52) \<le> q / ulp_of q"
    using ulp_of_pos [of q] by (simp add: pos_le_divide_eq)
  then have "2 ^ 52 \<le> round_half_even (q / ulp_of q)"
    by (rule round_half_even_ge)
  then have "rat_of_int (2 ^ 52) \<le> rat_of_int (round_half_even (q / ulp_of q))"
    by (simp only: of_int_le_iff)
  then have "rat_of_int (2 ^ 52) * ulp_of q \<le> rat_of_int (round_half_even (q / ulp_of q)) * ulp_of q"
    using ulp_of_pos [of q] by (intro mult_right_mono) simp_all
  then show ?thesis
    using assms by (simp add: round_double_pos_eq ulp_of_scale)
qed

lemma round_double_nonneg:
  assumes "0 \<le> q"
  shows "0 \<le> round_double q"
proof (cases "q = 0")
  case True
  then show ?thesis by (simp add: round_double_def)
next
  case False
  with assms have q: "0 < q" by simp
  have "rat_of_int 0 \<le> q / ulp_of q"
    using q ulp_of_pos [of q] by simp
  then have "0 \<le> round_half_even (q / ulp_of q)"
    by (rule round_half_even_ge)
  then show ?thesis
    using q ulp_of_pos [of q] by (simp add: round_double_pos_eq)
qed

lemma round_double_mono_pos:
  assumes "0 < q" "q \<le> r"
  shows "round_double q \<le> round_double r"
proof (cases "binade q = binade r")
  case True
  then have u: "ulp_of q = ulp_of r" by (simp add: ulp_of_def)
  have "q / ulp_of r \<le> r / ulp_of r"
    using assms ulp_of_pos [of r] by (simp add: divide_right_mono)
  then have "round_half_even (q / ulp_of r) \<le> round_half_even (r / ulp_of r)"
    by (rule round_half_even_mono)
  then have "rat_of_int (round_half_even (q / ulp_of r)) * ulp_of r
             \<le> rat_of_int (round_half_even (r / ulp_of r)) * ulp_of r"
    using ulp_of_pos [of r] by (intro mult_right_mono) simp_all
  then show ?thesis
    using assms by (simp add: round_double_pos_eq u)
next
  case False
  then have lt: "binade q < binade r"
    using binade_mono [OF assms] by simp
  have r: "0 < r" using assms by simp
  have "- 1022 \<le> binade q" by (simp add: binade_def)
  then have "- 1022 \<le> ilog2 r"
    using lt r unfolding binade_def by (simp add: max_def split: if_splits)
  then have lower: "2 powi (binade r) \<le> round_double r"
    using r by (intro round_double_lower)
  have "round_double q \<le> 2 powi (binade q + 1)"
    using assms(1) by (rule round_double_upper)
  also have "\<dots> \<le> 2 powi (binade r)"
    using lt by (intro powi2_le) simp
  finally show ?thesis using lower by simp
qed

lemma round_double_zero [simp]: "round_double 0 = 0"
  by (simp add: round_double_def)

lemma round_double_mono:
  assumes "0 \<le> q" "q \<le> r"
  shows "round_double q \<le> round_double r"
proof (cases "q = 0")
  case True
  then show ?thesis using assms round_double_nonneg [of r] by simp
next
  case False
  then show ?thesis using assms by (intro round_double_mono_pos) simp_all
qed

lemma bit_length_one: "bit_length (Suc 0) = Suc 0"
  by (simp add: bit_length.simps)

lemma round_double_one [simp]: "round_double 1 = 1"
proof -
  have "ilog2 1 = 0" by (simp add: ilog2_def bit_length_one)
  then have u: "ulp_of 1 = 1 / 2 ^ 52"
    by (simp add: ulp_of_def binade_def power_int_minus inverse_eq_divide)
  have "1 / ulp_of 1 = rat_of_int (2 ^ 52)"
    unfolding u by simp
  then have "round_half_even (1 / ulp_of 1) = 2 ^ 52"
    by (simp only: round_half_even_of_int)
  then have "round_double 1 = rat_of_int (2 ^ 52) * (1 / 2 ^ 52)"
    by (simp add: round_double_def u)
  then show ?thesis by simp
qed

lemma round_double_le_one: "0 \<le> q \<Longrightarrow> q \<le> 1 \<Longrightarrow> round_double q \<le> 1"
  using round_double_mono [of q 1] by simp

lemma round_double_error:
  assumes "0 < q"
  shows "\<bar>round_double q - q\<bar> \<le> ulp_of q / 2"
proof -
  define u where "u = ulp_of q"
  have u: "0 < u" by (simp add: u_def ulp_of_pos)
  define x where "x = q / u"
  have q: "q = x * u" using u by (simp add: x_def)
  have "round_double q - q = (rat_of_int (round_half_even x) - x) * u"
    using assms by (simp add: round_double_pos_eq x_def u_def algebra_simps)
  then have "\<bar>round_double q - q\<bar> = \<bar>rat_of_int (round_half_even x) - x\<bar> * u"
    using u by (simp add: abs_mult)
  also have "\<dots> \<le> (1 / 2) * u"
    using u round_half_even_error [of x] by (intro mult_right_mono) simp_all
  finally show ?thesis by (simp add: u_def)
qed

lemma round_double_relative_error:
  assumes "2 powi (- 1022) \<le> q"
  shows "\<bar>round_double q - q\<bar> \<le> q / 2 ^ 53"
proof -
  have q: "0 < q"
    using assms by (rule less_le_trans [rotated]) simp
  have "ilog2 (2 powi (- 1022)) \<le> ilog2 q"
    using assms by (intro ilog2_mono) simp_all
  moreover have "- 1022 \<le> ilog2 (2 powi (- 1022))"
  proof -
    have "(2::rat) powi (- 1022) < 2 powi (ilog2 (2 powi (- 1022)) + 1)"
      by (intro ilog2_bounds) simp
    then have "- 1022 < ilog2 (2 powi (- 1022)) + 1"
      by (rule powi2_less_imp)
    then show ?thesis by simp
  qed
  ultimately have n: "- 1022 \<le> ilog2 q" by simp
  have "2 ^ 52 * ulp_of q \<le> q"
    using binade_lower [OF q n] by (simp only: ulp_of_scale)
  then have "ulp_of q / 2 \<le> q / 2 ^ 53"
    by simp
  with round_double_error [OF q] show ?thesis by simp
qed

lemma subnormal_binade:
  assumes "0 < q" "q < 2 powi (- 1022)"
  shows "binade q = - 1022"
proof -
  have "2 powi (ilog2 q) \<le> q" using assms(1) by (rule ilog2_bounds)
  also note assms(2)
  finally have "ilog2 q < - 1022" by (rule powi2_less_imp)
  then show ?thesis using assms(1) by (simp add: binade_def)
qed

lemma round_double_subnormal_error:
  assumes "0 \<le> q" "q < 2 powi (- 1022)"
  shows "\<bar>round_double q - q\<bar> \<le> 2 powi (- 1075)"
proof (cases "q = 0")
  case True
  then show ?thesis by simp
next
  case False
  with assms have q: "0 < q" by simp
  have "ulp_of q = 2 powi (- 1074)"
    using subnormal_binade [OF q assms(2)] by (simp add: ulp_of_def)
  moreover have "(2::rat) powi (- 1074) / 2 = 2 powi (- 1075)"
    using power_int_add [of "2::rat" "- 1075" 1] by simp
  ultimately show ?thesis using round_double_error [OF q] by simp
qed

lemma round_double_underflow:
  assumes "0 \<le> q" "q < 2 powi (- 1075)"
  shows "round_double q = 0"
proof (cases "q = 0")
  case True
  then show ?thesis by simp
next
  case False
  with assms have q: "0 < q" by simp
  have "(2::rat) powi (- 1075) \<le> 2 powi (- 1022)" by (rule powi2_le) simp
  with assms have sub: "q < 2 powi (- 1022)" by simp
  have u: "ulp_of q = 2 powi (- 1074)"
    using subnormal_binade [OF q sub] by (simp add: ulp_of_def)
  have half: "(2::rat) powi (- 1075) = 2 powi (- 1074) / 2"
    using power_int_add [of "2::rat" "- 1075" 1] by simp
  define x where "x = q / ulp_of q"
  have a: "x < 1 / 2"
    using assms(2) unfolding x_def u half by (simp add: pos_divide_less_eq)
  have b: "0 \<le> x"
    using q ulp_of_pos [of q] by (simp add: x_def)
  have "x < 1" using a by linarith
  with b have "\<lfloor>x\<rfloor> = 0" by (simp only: floor_eq_iff) simp
  with a have "round_half_even x = 0"
    by (simp add: round_half_even_def)
  then have "round_half_even (q / ulp_of q) = 0"
    by (simp only: x_def)
  then show ?thesis using q by (simp add: round_double_pos_eq)
qed

section \<open>The probabilities as rounded quotients of exact counts\<close>

lemma mass_nonneg: "0 \<le> mass N s b B"
  by (simp add: mass_def binom_nonneg)

lemma mass_outside:
  assumes "0 \<le> b" "b \<le> s" "B < 0 \<or> N < B"
  shows "mass N s b B = 0"
  using assms by (auto simp: mass_def binom_def)

lemma mass_pos_imp:
  assumes "mass N s b B \<noteq> 0"
  shows "0 \<le> b \<and> b \<le> B \<and> 0 \<le> s - b \<and> s - b \<le> N - B"
  using assms by (auto simp: mass_def binom_def split: if_splits)

lemma ways_mass:
  assumes "0 \<le> b" "b \<le> s" "B \<le> lm" "N - B \<le> lm"
  shows "ways_to_get_specific_sample_from_specific_jar lm N B s b = Inr (mass N s b B)"
  using assms by (simp add: ways_exact mass_def)

lemma ways_mass_cases:
  assumes "0 \<le> b" "b \<le> s"
  shows "ways_to_get_specific_sample_from_specific_jar lm N B s b = Inr (mass N s b B)
         \<or> ways_to_get_specific_sample_from_specific_jar lm N B s b = Inl OverflowError"
  using ways_cases [OF assms, of lm N B] by (simp add: mass_def)

lemma all_jars_exact:
  assumes "0 \<le> b" "b \<le> s" "N \<le> lm"
  shows "ways_to_get_specific_sample_from_all_jars_of_given_size lm N s b = Inr (\<Sum>B = 0..N. mass N s b B)"
  unfolding ways_to_get_specific_sample_from_all_jars_of_given_size_def
  using assms by (intro tally_loop_upto ways_mass) simp_all

lemma all_jars_cases:
  assumes "0 \<le> b" "b \<le> s"
  shows "ways_to_get_specific_sample_from_all_jars_of_given_size lm N s b = Inr (\<Sum>B = 0..N. mass N s b B)
         \<or> ways_to_get_specific_sample_from_all_jars_of_given_size lm N s b = Inl OverflowError"
  unfolding ways_to_get_specific_sample_from_all_jars_of_given_size_def
  using assms by (intro tally_loop_upto_cases ways_mass_cases)

lemma interval_exact:
  assumes "0 \<le> b" "b \<le> s" "U \<le> lm" "N - L \<le> lm"
  shows "ways_to_get_specific_sample_from_interval_of_jars lm N L U s b = Inr (\<Sum>B = L..U. mass N s b B)"
  unfolding ways_to_get_specific_sample_from_interval_of_jars_def
  using assms by (intro tally_loop_upto ways_mass) simp_all

lemma interval_cases:
  assumes "0 \<le> b" "b \<le> s"
  shows "ways_to_get_specific_sample_from_interval_of_jars lm N L U s b = Inr (\<Sum>B = L..U. mass N s b B)
         \<or> ways_to_get_specific_sample_from_interval_of_jars lm N L U s b = Inl OverflowError"
  unfolding ways_to_get_specific_sample_from_interval_of_jars_def
  using assms by (intro tally_loop_upto_cases ways_mass_cases)

lemma all_jars_pos:
  assumes "0 \<le> b" "b \<le> s" "s \<le> N"
  shows "0 < (\<Sum>B = 0..N. mass N s b B)"
proof (rule sum_pos2 [where i = b])
  show "finite {0..N}" by simp
  show "b \<in> {0..N}" using assms by simp
  show "0 < mass N s b b"
    using assms by (simp add: mass_def binom_pos_iff)
  show "\<And>B. B \<in> {0..N} \<Longrightarrow> 0 \<le> mass N s b B"
    by (rule mass_nonneg)
qed

lemma all_jars_nonneg: "0 \<le> (\<Sum>B = 0..N. mass N s b B)"
  by (intro sum_nonneg mass_nonneg)

lemma interval_clip:
  assumes "0 \<le> b" "b \<le> s"
  shows "(\<Sum>B = L..U. mass N s b B) = (\<Sum>B = max L 0..min U N. mass N s b B)"
proof (rule sum.mono_neutral_right)
  show "finite {L..U}" by simp
  show "{max L 0..min U N} \<subseteq> {L..U}" by auto
  show "\<forall>B\<in>{L..U} - {max L 0..min U N}. mass N s b B = 0"
    using assms by (auto intro!: mass_outside)
qed

lemma interval_mono:
  assumes "L2 \<le> L1" "U1 \<le> U2"
  shows "(\<Sum>B = L1..U1. mass N s b B) \<le> (\<Sum>B = L2..U2. mass N s b B)"
proof (rule sum_mono2)
  show "finite {L2..U2}" by simp
  show "{L1..U1} \<subseteq> {L2..U2}" using assms by auto
  show "\<And>B. B \<in> {L2..U2} - {L1..U1} \<Longrightarrow> 0 \<le> mass N s b B"
    by (rule mass_nonneg)
qed

lemma interval_cover:
  assumes "0 \<le> b" "b \<le> s" "L \<le> 0" "N \<le> U"
  shows "(\<Sum>B = L..U. mass N s b B) = (\<Sum>B = 0..N. mass N s b B)"
proof -
  have "max L 0 = 0" "min U N = N" using assms by simp_all
  then show ?thesis using interval_clip [OF assms(1,2), where L = L and U = U and N = N] by simp
qed

lemma interval_le_all:
  assumes "0 \<le> b" "b \<le> s"
  shows "(\<Sum>B = L..U. mass N s b B) \<le> (\<Sum>B = 0..N. mass N s b B)"
proof -
  have "(\<Sum>B = L..U. mass N s b B) = (\<Sum>B = max L 0..min U N. mass N s b B)"
    using assms by (rule interval_clip)
  also have "\<dots> \<le> (\<Sum>B = 0..N. mass N s b B)"
    by (rule interval_mono) simp_all
  finally show ?thesis .
qed

lemma interval_nonneg: "0 \<le> (\<Sum>B = L..U. mass N s b B)"
  by (intro sum_nonneg mass_nonneg)

lemma mass_le_all:
  assumes "0 \<le> b" "b \<le> s"
  shows "mass N s b B \<le> (\<Sum>B = 0..N. mass N s b B)"
  using interval_le_all [OF assms, where L = B and U = B and N = N] by simp

text \<open>The quotient of two counts, as the true division computes it.\<close>

lemma ratio_unit:
  assumes "0 \<le> a" "a \<le> d" "0 < d"
  shows "0 \<le> rat_of_int a / rat_of_int d" "rat_of_int a / rat_of_int d \<le> 1"
  using assms by simp_all

lemma round_double_unit:
  assumes "0 \<le> q" "q \<le> 1"
  shows "0 \<le> round_double q" "round_double q \<le> 1" "\<not> double_overflow (round_double q)"
proof -
  show a: "0 \<le> round_double q" using assms by (intro round_double_nonneg)
  show b: "round_double q \<le> 1" using assms by (intro round_double_le_one)
  have "(1::rat) < 2 ^ 1024" by simp
  with a b show "\<not> double_overflow (round_double q)"
    unfolding double_overflow_def by linarith
qed

lemma int_true_divide_unit:
  assumes "0 \<le> a" "a \<le> d" "0 < d"
  shows "int_true_divide a d = Inr (round_double (rat_of_int a / rat_of_int d))"
proof -
  have "\<not> double_overflow (round_double (rat_of_int a / rat_of_int d))"
    using assms by (intro round_double_unit ratio_unit)
  then show ?thesis using assms by (simp add: int_true_divide_def)
qed

lemma mass_le_binom:
  assumes "0 \<le> s" "s \<le> N" "0 \<le> b" "b \<le> s" "0 \<le> B" "B \<le> N"
  shows "mass N s b B \<le> binom N s"
proof -
  have "(\<Sum>v = 0..s. binom B v * binom (N - B) (s - v)) = binom N s"
    using assms by (intro vandermonde_int)
  moreover have "binom B b * binom (N - B) (s - b) \<le> (\<Sum>v = 0..s. binom B v * binom (N - B) (s - v))"
    using assms by (intro member_le_sum) (simp_all add: binom_nonneg)
  ultimately show ?thesis by (simp add: mass_def)
qed

lemma forward_exact:
  assumes "0 \<le> s" "s \<le> N" "0 \<le> b" "b \<le> s" "0 \<le> B" "B \<le> N" "N \<le> lm"
  shows "probability_of_getting_specific_sample_from_specific_jar lm N B s b
         = Inr (round_double (rat_of_int (mass N s b B) / rat_of_int (binom N s)))"
proof -
  have den: "0 < binom N s" using assms by (simp add: binom_pos_iff)
  have le: "mass N s b B \<le> binom N s" using assms(1-6) by (rule mass_le_binom)
  have num: "ways_to_get_specific_sample_from_specific_jar lm N B s b = Inr (mass N s b B)"
    using assms by (intro ways_mass) simp_all
  show ?thesis
    unfolding probability_of_getting_specific_sample_from_specific_jar_def
    using assms le den num
    by (simp add: all_samples_exact int_true_divide_unit mass_nonneg)
qed

lemma reverse_exact:
  assumes "0 \<le> s" "s \<le> N" "0 \<le> b" "b \<le> s" "N \<le> lm" "B \<le> lm" "N - B \<le> lm"
  shows "probability_that_specific_sample_came_from_specific_jar lm N B s b
         = Inr (round_double (rat_of_int (mass N s b B) / rat_of_int (\<Sum>v = 0..N. mass N s b v)))"
  unfolding probability_that_specific_sample_came_from_specific_jar_def
  using assms
  by (simp add: ways_mass all_jars_exact int_true_divide_unit mass_nonneg mass_le_all all_jars_pos)

lemma interval_probability_exact:
  assumes "0 \<le> s" "s \<le> N" "0 \<le> b" "b \<le> s" "N \<le> lm" "U \<le> lm" "N - L \<le> lm"
  shows "probability_that_specific_sample_came_from_interval_of_jars lm N L U s b
         = Inr (round_double (rat_of_int (\<Sum>v = L..U. mass N s b v) / rat_of_int (\<Sum>v = 0..N. mass N s b v)))"
  unfolding probability_that_specific_sample_came_from_interval_of_jars_def
  using assms
  by (simp add: interval_exact all_jars_exact int_true_divide_unit interval_nonneg interval_le_all all_jars_pos)

lemma interval_probability_cases:
  assumes "0 \<le> s" "s \<le> N" "0 \<le> b" "b \<le> s"
  shows "probability_that_specific_sample_came_from_interval_of_jars lm N L U s b
           = Inr (round_double (rat_of_int (\<Sum>v = L..U. mass N s b v) / rat_of_int (\<Sum>v = 0..N. mass N s b v)))
         \<or> probability_that_specific_sample_came_from_interval_of_jars lm N L U s b = Inl OverflowError"
  unfolding probability_that_specific_sample_came_from_interval_of_jars_def
  using interval_cases [OF assms(3,4), of lm N L U] all_jars_cases [OF assms(3,4), of lm N] assms
  by (auto simp: int_true_divide_unit interval_nonneg interval_le_all all_jars_pos)

lemma interval_probability_cover:
  assumes "0 \<le> s" "s \<le> N" "0 \<le> b" "b \<le> s" "L \<le> 0" "N \<le> U" "U \<le> lm" "N - L \<le> lm"
  shows "probability_that_specific_sample_came_from_interval_of_jars lm N L U s b = Inr 1"
proof -
  define d where "d = (\<Sum>v = 0..N. mass N s b v)"
  have "0 < d"
    unfolding d_def using assms by (intro all_jars_pos)
  then have one: "rat_of_int d / rat_of_int d = 1" by simp
  have "(\<Sum>v = L..U. mass N s b v) = d"
    unfolding d_def using assms by (intro interval_cover)
  moreover have "N \<le> lm" using assms by simp
  ultimately have "probability_that_specific_sample_came_from_interval_of_jars lm N L U s b
             = Inr (round_double (rat_of_int d / rat_of_int d))"
    using assms by (simp only: interval_probability_exact d_def)
  then show ?thesis by (simp only: one round_double_one)
qed

lemma interval_value_cover:
  assumes "0 \<le> s" "s \<le> N" "0 \<le> b" "b \<le> s" "Bg - d \<le> 0" "N \<le> Bg + d"
  shows "interval_value N Bg s b d = 1"
proof -
  define t where "t = (\<Sum>v = 0..N. mass N s b v)"
  have "0 < t"
    unfolding t_def using assms by (intro all_jars_pos)
  then have one: "rat_of_int t / rat_of_int t = 1" by simp
  have "(\<Sum>v = Bg - d..Bg + d. mass N s b v) = t"
    unfolding t_def using assms by (intro interval_cover)
  then have "interval_value N Bg s b d = round_double (rat_of_int t / rat_of_int t)"
    by (simp only: interval_value_def t_def)
  then show ?thesis by (simp only: one round_double_one)
qed

section \<open>Evaluating the rounding\<close>

lemma ilog2_unique:
  assumes "2 powi e \<le> q" "q < 2 powi (e + 1)"
  shows "ilog2 q = e"
proof -
  have q: "0 < q" using assms(1) by (rule less_le_trans [rotated]) simp
  have "(2::rat) powi e < 2 powi (ilog2 q + 1)"
    using assms(1) ilog2_bounds(2) [OF q] by (rule le_less_trans)
  then have a: "e < ilog2 q + 1" by (rule powi2_less_imp)
  have "(2::rat) powi (ilog2 q) < 2 powi (e + 1)"
    using ilog2_bounds(1) [OF q] assms(2) by (rule le_less_trans)
  then have "ilog2 q < e + 1" by (rule powi2_less_imp)
  with a show ?thesis by simp
qed

lemma round_double_eval:
  assumes "2 powi e \<le> q" "q < 2 powi (e + 1)" "- 1022 \<le> e"
  shows "round_double q = rat_of_int (round_half_even (q / 2 powi (e - 52))) * 2 powi (e - 52)"
proof -
  have q: "0 < q" using assms(1) by (rule less_le_trans [rotated]) simp
  have "ilog2 q = e" using assms(1,2) by (rule ilog2_unique)
  then have "ulp_of q = 2 powi (e - 52)"
    using q assms(3) by (simp add: ulp_of_def binade_def)
  then show ?thesis using q by (simp add: round_double_pos_eq)
qed

lemma round_double_overflows:
  assumes "2 ^ 1024 \<le> q"
  shows "double_overflow (round_double q)"
proof -
  have q: "0 < q" using assms by (rule less_le_trans [rotated]) simp
  have "(2::rat) powi 1024 \<le> q" using assms by simp
  also have "q < 2 powi (ilog2 q + 1)" using q by (rule ilog2_bounds)
  finally have "1024 < ilog2 q + 1" by (rule powi2_less_imp)
  then have e: "1024 \<le> ilog2 q" by simp
  then have "binade q = ilog2 q" using q by (simp add: binade_def)
  moreover have "2 powi (binade q) \<le> round_double q"
    using q e by (intro round_double_lower) simp_all
  moreover have "(2::rat) powi 1024 \<le> 2 powi (ilog2 q)"
    using e by (rule powi2_le)
  ultimately have "2 ^ 1024 \<le> round_double q" by simp
  then show ?thesis by (simp add: double_overflow_def)
qed

lemma int_true_divide_overflows:
  assumes "0 < d" "2 ^ 1024 * d \<le> a"
  shows "int_true_divide a d = Inl OverflowError"
proof -
  have "rat_of_int (2 ^ 1024 * d) \<le> rat_of_int a"
    using assms(2) by (simp only: of_int_le_iff)
  then have "2 ^ 1024 \<le> rat_of_int a / rat_of_int d"
    using assms(1) by (simp add: pos_le_divide_eq)
  then have "double_overflow (round_double (rat_of_int a / rat_of_int d))"
    by (rule round_double_overflows)
  then show ?thesis using assms(1) by (simp add: int_true_divide_def)
qed

lemma floor_rat_numeral [simp]:
  "\<lfloor>numeral a / numeral b :: rat\<rfloor> = numeral a div numeral b"
  by (metis floor_divide_of_int_eq of_int_numeral)

lemma B_guess_15_11_steps:
  "round_double (15 / 11) = 6141272219141585 / 4503599627370496"
  "round_double 11 = 11"
  "round_double (67553994410557435 / 4503599627370496) = 8444249301319679 / 562949953421312"
proof -
  show "round_double (15 / 11) = 6141272219141585 / 4503599627370496"
    by (subst round_double_eval [where e = 0]) (simp_all add: round_half_even_def Let_def)
  show "round_double 11 = 11"
    by (subst round_double_eval [where e = 3]) (simp_all add: round_half_even_def Let_def)
  show "round_double (67553994410557435 / 4503599627370496) = 8444249301319679 / 562949953421312"
    by (subst round_double_eval [where e = 3]) (simp_all add: round_half_even_def Let_def)
qed

section \<open>The point estimate\<close>

lemma round_double_below_power:
  assumes "0 \<le> q" "q < 2 ^ k"
  shows "round_double q \<le> 2 ^ k"
proof (cases "q = 0")
  case True
  then show ?thesis by simp
next
  case False
  with assms have q: "0 < q" by simp
  have "(2::rat) powi (ilog2 q) < 2 powi (int k)"
    using ilog2_bounds(1) [OF q] assms(2) by simp
  then have "ilog2 q < int k" by (rule powi2_less_imp)
  then have "binade q + 1 \<le> int k"
    using q by (simp add: binade_def)
  then have "(2::rat) powi (binade q + 1) \<le> 2 powi (int k)"
    by (rule powi2_le)
  with round_double_upper [OF q] show ?thesis by simp
qed

lemma round_double_relative_upper:
  assumes "q = 0 \<or> 1 \<le> q"
  shows "round_double q \<le> q * (1 + 1 / 2 ^ 53)"
proof (cases "q = 0")
  case True
  then show ?thesis by simp
next
  case False
  with assms have q: "1 \<le> q" by simp
  have "(2::rat) powi (- 1022) \<le> 2 powi 0" by (rule powi2_le) simp
  then have "2 powi (- 1022) \<le> q" using q by simp
  then have "\<bar>round_double q - q\<bar> \<le> q / 2 ^ 53"
    by (rule round_double_relative_error)
  then have "round_double q \<le> q + q / 2 ^ 53" by linarith
  then show ?thesis by (simp add: algebra_simps)
qed

lemma round_double_ge_one: "1 \<le> q \<Longrightarrow> 1 \<le> round_double q"
  using round_double_mono [of 1 q] by simp

lemma B_guess_returns:
  assumes "0 < s" "s \<le> N" "0 \<le> b" "b \<le> s" "N < 2 ^ 1000"
  shows "\<exists>Bg. B_guess N s b = Inr Bg \<and> 0 \<le> Bg \<and> Bg \<le> 2 * N"
proof -
  define q where "q = rat_of_int N / rat_of_int s"
  define ratio where "ratio = round_double q"
  define blues where "blues = round_double (rat_of_int b)"
  define product where "product = round_double (blues * ratio)"
  define u :: rat where "u = 1 + 1 / 2 ^ 53"
  have u: "0 \<le> u" "u * u * u \<le> 2" by (simp_all add: u_def)
  have sN: "rat_of_int s \<le> rat_of_int N" "0 < rat_of_int s" "rat_of_int N < 2 ^ 1000"
    using assms by simp_all
  have N0: "0 \<le> rat_of_int N" using sN by linarith
  have q1: "1 \<le> q" unfolding q_def using sN by (simp add: pos_le_divide_eq)
  have r0: "1 \<le> ratio" unfolding ratio_def using q1 by (rule round_double_ge_one)
  have r2: "ratio \<le> q * u"
    unfolding ratio_def u_def using q1 by (intro round_double_relative_upper) simp
  have bb: "rat_of_int b = 0 \<or> 1 \<le> rat_of_int b"
  proof (cases "b = 0")
    case True
    then show ?thesis by simp
  next
    case False
    then have "1 \<le> b" using assms(3) by simp
    then have "rat_of_int 1 \<le> rat_of_int b" by (simp only: of_int_le_iff)
    then show ?thesis by simp
  qed
  have bN: "0 \<le> rat_of_int b" "rat_of_int b \<le> rat_of_int s" using assms by simp_all
  have b0: "0 \<le> blues" unfolding blues_def using bN by (intro round_double_nonneg)
  have b01: "blues = 0 \<or> 1 \<le> blues"
    unfolding blues_def using bb round_double_ge_one [of "rat_of_int b"] by auto
  have b2: "blues \<le> rat_of_int s * u"
  proof -
    have "blues \<le> rat_of_int b * u"
      unfolding blues_def u_def using bb by (rule round_double_relative_upper)
    also have "\<dots> \<le> rat_of_int s * u"
      using bN u by (intro mult_right_mono) simp_all
    finally show ?thesis .
  qed
  have x0: "0 \<le> blues * ratio" using b0 r0 by simp
  have x01: "blues * ratio = 0 \<or> 1 \<le> blues * ratio"
  proof (cases "blues = 0")
    case True
    then show ?thesis by simp
  next
    case False
    then have "1 \<le> blues" using b01 by simp
    then have "1 * 1 \<le> blues * ratio" using r0 by (intro mult_mono) simp_all
    then show ?thesis by simp
  qed
  have "blues * ratio \<le> (rat_of_int s * u) * (q * u)"
    using b0 b2 r0 r2 sN u by (intro mult_mono) simp_all
  also have "\<dots> = rat_of_int N * (u * u)"
    unfolding q_def using sN by simp
  finally have x2: "blues * ratio \<le> rat_of_int N * (u * u)" .
  have "product \<le> (blues * ratio) * u"
    unfolding product_def u_def using x01 by (rule round_double_relative_upper)
  also have "\<dots> \<le> (rat_of_int N * (u * u)) * u"
    using x2 u by (intro mult_right_mono) simp_all
  also have "\<dots> = rat_of_int N * (u * u * u)" by simp
  also have "\<dots> \<le> rat_of_int N * 2"
    using N0 u by (intro mult_left_mono) simp_all
  finally have p2: "product \<le> 2 * rat_of_int N" by simp
  have p0: "0 \<le> product"
    unfolding product_def using x0 by (rule round_double_nonneg)
  have big: "(2::rat) * 2 ^ 1000 < 2 ^ 1024" by simp
  have r1: "ratio \<le> 2 ^ 1000"
  proof -
    have "q \<le> rat_of_int N"
      unfolding q_def using sN by (simp add: pos_divide_le_eq mult_le_cancel_left1)
    then have "q < 2 ^ 1000" using sN by simp
    then show ?thesis unfolding ratio_def using q1 by (intro round_double_below_power) simp_all
  qed
  have b1: "blues \<le> 2 ^ 1000"
    unfolding blues_def using bN sN by (intro round_double_below_power) simp_all
  have "\<not> double_overflow ratio" "\<not> double_overflow blues" "\<not> double_overflow product"
    unfolding double_overflow_def using r0 r1 b0 b1 p0 p2 sN big by linarith+
  then have guess: "B_guess N s b = Inr (float_to_int product)"
    using assms(1)
    by (simp add: B_guess_def int_true_divide_def int_to_float_def Let_def
        q_def [symmetric] ratio_def [symmetric] blues_def [symmetric] product_def [symmetric])
  have fl: "float_to_int product = \<lfloor>product\<rfloor>" using p0 by (simp add: float_to_int_def)
  have lo: "0 \<le> \<lfloor>product\<rfloor>" using p0 by simp
  have "product \<le> rat_of_int (2 * N)" using p2 by simp
  then have "\<lfloor>product\<rfloor> \<le> \<lfloor>rat_of_int (2 * N)\<rfloor>" by (rule floor_mono)
  then have hi: "\<lfloor>product\<rfloor> \<le> 2 * N" by (simp only: floor_of_int)
  show ?thesis using guess fl lo hi by simp
qed

lemma B_guess_no_blues:
  assumes "0 < s" "0 \<le> N" "N < 2 ^ 1000 * s"
  shows "B_guess N s 0 = Inr 0"
proof -
  define q where "q = rat_of_int N / rat_of_int s"
  have s: "0 < rat_of_int s" using assms by simp
  have "rat_of_int N < rat_of_int (2 ^ 1000 * s)"
    using assms(3) by (simp only: of_int_less_iff)
  then have "q < 2 ^ 1000"
    unfolding q_def using s by (simp add: pos_divide_less_eq)
  moreover have q0: "0 \<le> q" unfolding q_def using assms by simp
  ultimately have "round_double q \<le> 2 ^ 1000" by (intro round_double_below_power)
  moreover have "0 \<le> round_double q" using q0 by (rule round_double_nonneg)
  moreover have "(2::rat) ^ 1000 < 2 ^ 1024" by simp
  ultimately have "\<not> double_overflow (round_double q)"
    unfolding double_overflow_def by linarith
  then show ?thesis
    using assms(1)
    by (simp add: B_guess_def int_true_divide_def int_to_float_def Let_def q_def [symmetric]
        double_overflow_def float_to_int_def)
qed

lemma round_double_four: "round_double 4 = 4"
  by (subst round_double_eval [where e = 2]) (simp_all add: round_half_even_def Let_def)

lemma B_guess_8_2_1: "B_guess 8 2 1 = Inr 4"
  by (simp add: B_guess_def int_true_divide_def int_to_float_def Let_def
      round_double_four double_overflow_def float_to_int_def)

section \<open>The interval search\<close>

lemma theta_loop_exit:
  assumes "\<not> p < c"
  shows "theta_loop lm N Bg s b c d p = Some (Inr d)"
  using assms by (subst theta_loop.simps) simp

lemma theta_loop_step:
  assumes "p < c"
    and "probability_that_specific_sample_came_from_interval_of_jars lm N (Bg - (d + 1)) (Bg + (d + 1)) s b = Inr p'"
  shows "theta_loop lm N Bg s b c d p = theta_loop lm N Bg s b c (d + 1) p'"
  using assms by (subst theta_loop.simps) (simp add: Let_def)


lemma theta_loop_finds:
  fixes pf :: "int \<Rightarrow> rat"
  assumes pf: "\<And>d. d \<le> D \<Longrightarrow>
      probability_that_specific_sample_came_from_interval_of_jars lm N (Bg - d) (Bg + d) s b = Inr (pf d)"
    and "d0 \<le> D" "c \<le> pf D"
  shows "\<exists>D'. d0 \<le> D' \<and> D' \<le> D \<and> theta_loop lm N Bg s b c d0 (pf d0) = Some (Inr D')
              \<and> c \<le> pf D' \<and> (\<forall>d. d0 \<le> d \<and> d < D' \<longrightarrow> pf d < c)"
  using assms(2,3)
proof (induction "nat (D - d0)" arbitrary: d0)
  case 0
  then have "d0 = D" by simp
  then have "theta_loop lm N Bg s b c d0 (pf d0) = Some (Inr d0)"
    using 0 by (intro theta_loop_exit) simp
  then show ?case using 0 \<open>d0 = D\<close> by auto
next
  case (Suc n)
  show ?case
  proof (cases "pf d0 < c")
    case False
    then have "theta_loop lm N Bg s b c d0 (pf d0) = Some (Inr d0)"
      by (rule theta_loop_exit)
    then show ?thesis using False Suc.prems by auto
  next
    case True
    have n: "n = nat (D - (d0 + 1))" "d0 + 1 \<le> D"
      using Suc.hyps(2) by simp_all
    obtain D' where D': "d0 + 1 \<le> D'" "D' \<le> D"
        "theta_loop lm N Bg s b c (d0 + 1) (pf (d0 + 1)) = Some (Inr D')"
        "c \<le> pf D'" "\<forall>d. d0 + 1 \<le> d \<and> d < D' \<longrightarrow> pf d < c"
      using Suc.hyps(1) [OF n Suc.prems(2)] by blast
    have "theta_loop lm N Bg s b c d0 (pf d0) = theta_loop lm N Bg s b c (d0 + 1) (pf (d0 + 1))"
      using True pf [OF n(2)] by (rule theta_loop_step)
    moreover have "\<forall>d. d0 \<le> d \<and> d < D' \<longrightarrow> pf d < c"
    proof (intro allI impI)
      fix d assume d: "d0 \<le> d \<and> d < D'"
      show "pf d < c"
      proof (cases "d = d0")
        case True
        then show ?thesis using \<open>pf d0 < c\<close> by simp
      next
        case False
        then have "d0 + 1 \<le> d \<and> d < D'" using d by simp
        then show ?thesis using D'(5) by blast
      qed
    qed
    ultimately show ?thesis using D' by (intro exI [of _ D']) simp
  qed
qed



lemma covering_half_width_covers:
  "1 \<le> covering_half_width N Bg" "Bg - covering_half_width N Bg \<le> 0" "N \<le> Bg + covering_half_width N Bg"
  by (simp_all add: covering_half_width_def)


text \<open>
  When every jar count up to the covering half-width stays within \<open>long_max\<close>, the loop
  returns the least half-width whose probability reaches the confidence.
\<close>

lemma interval_value_within:
  assumes "0 \<le> s" "s \<le> N" "0 \<le> b" "b \<le> s"
    and "Bg + D \<le> lm" "N - Bg + D \<le> lm" "\<bar>Bg\<bar> \<le> D" "d \<le> D"
  shows "probability_that_specific_sample_came_from_interval_of_jars lm N (Bg - d) (Bg + d) s b
           = Inr (interval_value N Bg s b d)"
proof -
  have "N \<le> lm" "Bg + d \<le> lm" "N - (Bg - d) \<le> lm"
    using assms(5-8) by linarith+
  then show ?thesis
    using assms(1-4) by (simp add: interval_probability_exact interval_value_def)
qed

lemma theta_loop_returns:
  assumes "0 \<le> s" "s \<le> N" "0 \<le> b" "b \<le> s" "c \<le> 1"
    and "Bg + covering_half_width N Bg \<le> lm" "N - Bg + covering_half_width N Bg \<le> lm"
  shows "\<exists>D. 1 \<le> D \<and> D \<le> covering_half_width N Bg
             \<and> theta_loop lm N Bg s b c 1 (interval_value N Bg s b 1) = Some (Inr D)
             \<and> c \<le> interval_value N Bg s b D
             \<and> (\<forall>d. 1 \<le> d \<and> d < D \<longrightarrow> interval_value N Bg s b d < c)"
proof -
  define D0 where "D0 = covering_half_width N Bg"
  have abs: "\<bar>Bg\<bar> \<le> D0" by (simp add: D0_def covering_half_width_def)
  have pf: "\<And>d. d \<le> D0 \<Longrightarrow>
      probability_that_specific_sample_came_from_interval_of_jars lm N (Bg - d) (Bg + d) s b
        = Inr (interval_value N Bg s b d)"
    using assms(1-4,6,7) abs unfolding D0_def [symmetric] by (intro interval_value_within)
  have "interval_value N Bg s b D0 = 1"
    unfolding D0_def using assms(1-4) by (intro interval_value_cover covering_half_width_covers)
  then have top: "c \<le> interval_value N Bg s b D0"
    using assms(5) by simp
  have "1 \<le> D0" unfolding D0_def by (rule covering_half_width_covers)
  from theta_loop_finds [of D0 lm N Bg s b "interval_value N Bg s b", OF pf this top]
  show ?thesis unfolding D0_def by blast
qed

lemma theta_unfold:
  assumes "B_guess N s b = Inr Bg"
    and "probability_that_specific_sample_came_from_interval_of_jars lm N (Bg - 1) (Bg + 1) s b = Inr p1"
    and "theta_loop lm N Bg s b c 1 p1 = Some (Inr D)"
  shows "theta lm N s b c = Some (Inr (Bg, D))"
  using assms by (simp add: theta_def)

lemma search_within_long_max:
  assumes "0 < N" "0 \<le> Bg" "Bg \<le> 2 * N" "4 * N \<le> lm"
  shows "Bg + covering_half_width N Bg \<le> lm" "N - Bg + covering_half_width N Bg \<le> lm"
  using assms by (simp_all add: covering_half_width_def)

section \<open>Calls that raise\<close>

lemma ways_overflow_blues:
  assumes "0 \<le> b" "b \<le> B" "lm < B"
  shows "ways_to_get_specific_sample_from_specific_jar lm N B s b = Inl OverflowError"
  using assms by (simp add: ways_to_get_specific_sample_from_specific_jar_def choose_py_overflow)

lemma ways_overflow_reds:
  assumes "0 \<le> b" "B \<le> lm \<or> B < b" "0 \<le> s - b" "s - b \<le> N - B" "lm < N - B"
  shows "ways_to_get_specific_sample_from_specific_jar lm N B s b = Inl OverflowError"
proof -
  have "choose_py lm B b = Inr (binom B b)"
    using assms(1,2) by (rule choose_py_exact)
  moreover have "choose_py lm (N - B) (s - b) = Inl OverflowError"
    using assms(3-5) by (rule choose_py_overflow)
  ultimately show ?thesis
    by (simp add: ways_to_get_specific_sample_from_specific_jar_def)
qed

lemma ways_far_outside:
  assumes "0 \<le> b" "b \<le> s" "s \<le> N" "N \<le> lm" "B < N - lm \<or> lm < B"
  shows "ways_to_get_specific_sample_from_specific_jar lm N B s b = Inl OverflowError"
proof (cases "lm < B")
  case True
  then show ?thesis using assms by (intro ways_overflow_blues) simp_all
next
  case False
  then show ?thesis using assms by (intro ways_overflow_reds) simp_all
qed

lemma interval_probability_overflow:
  assumes "0 \<le> b" "b \<le> s" "s \<le> N" "N \<le> lm" "L \<le> U" "L < N - lm \<or> lm < U"
  shows "probability_that_specific_sample_came_from_interval_of_jars lm N L U s b = Inl OverflowError"
proof -
  have "ways_to_get_specific_sample_from_interval_of_jars lm N L U s b = Inl OverflowError"
  proof (cases "L < N - lm")
    case True
    then have "ways_to_get_specific_sample_from_specific_jar lm N L s b = Inl OverflowError"
      using assms(1-4) by (intro ways_far_outside) simp_all
    then show ?thesis
      unfolding ways_to_get_specific_sample_from_interval_of_jars_def
      using assms(5) by (intro tally_loop_first_raises)
  next
    case False
    then have "ways_to_get_specific_sample_from_specific_jar lm N U s b = Inl OverflowError"
      using assms by (intro ways_far_outside) simp_all
    then show ?thesis
      unfolding ways_to_get_specific_sample_from_interval_of_jars_def
      using assms(1,2,5) by (intro tally_loop_last_raises [where g = "mass N s b"] ways_mass_cases)
  qed
  then show ?thesis
    by (simp add: probability_that_specific_sample_came_from_interval_of_jars_def)
qed

lemma choose_py_raises:
  "choose_py lm n k = Inl e \<Longrightarrow> e = ValueError \<or> e = OverflowError"
  by (auto simp: choose_py_def factorial_def split: if_splits)

lemma ways_invalid_blues:
  assumes "0 \<le> B" "B \<le> N" "b < 0 \<or> s < b"
  shows "\<exists>e. ways_to_get_specific_sample_from_specific_jar lm N B s b = Inl e"
proof (cases "b < 0")
  case True
  then have "\<exists>e. choose_py lm B b = Inl e"
    using assms(1) by (simp add: choose_py_negative_k)
  then show ?thesis
    by (auto simp: ways_to_get_specific_sample_from_specific_jar_def)
next
  case False
  then have b: "0 \<le> b" "s - b < 0" using assms(3) by simp_all
  have second: "\<exists>e. choose_py lm (N - B) (s - b) = Inl e"
    using b(2) assms(2) by (simp add: choose_py_negative_k)
  from choose_py_nonneg_cases [OF b(1), of lm B] show ?thesis
    using second by (auto simp: ways_to_get_specific_sample_from_specific_jar_def)
qed

lemma all_samples_cases:
  assumes "0 \<le> s"
  shows "ways_to_get_all_samples_of_given_size_from_specific_jar lm N B s
           = Inr (\<Sum>v = 0..s. binom B v * binom (N - B) (s - v))
         \<or> ways_to_get_all_samples_of_given_size_from_specific_jar lm N B s = Inl OverflowError"
  unfolding ways_to_get_all_samples_of_given_size_from_specific_jar_def
  by (intro tally_loop_upto_cases ways_cases) simp_all

lemma all_samples_sum_zero:
  assumes "B < 0 \<or> N < B \<or> N < s"
  shows "(\<Sum>v = 0..s. binom B v * binom (N - B) (s - v)) = 0"
proof -
  have "\<And>v. v \<in> {0..s} \<Longrightarrow> binom B v * binom (N - B) (s - v) = 0"
    using assms by (auto simp: binom_def)
  then show ?thesis by (rule sum.neutral [rule_format])
qed

lemma all_jars_sum_zero:
  assumes "N < s"
  shows "(\<Sum>v = 0..N. mass N s b v) = 0"
proof -
  have "\<And>v. v \<in> {0..N} \<Longrightarrow> mass N s b v = 0"
    using assms mass_pos_imp [of N s b] by force
  then show ?thesis by (rule sum.neutral [rule_format])
qed

lemma forward_invalid:
  assumes "N < 0 \<or> s < 0 \<or> N < s \<or> b < 0 \<or> s < b \<or> B < 0 \<or> N < B"
  shows "\<exists>e. probability_of_getting_specific_sample_from_specific_jar lm N B s b = Inl e"
proof (cases "ways_to_get_specific_sample_from_specific_jar lm N B s b")
  case (Inl e)
  then show ?thesis
    by (simp add: probability_of_getting_specific_sample_from_specific_jar_def)
next
  case (Inr num)
  have den: "ways_to_get_all_samples_of_given_size_from_specific_jar lm N B s = Inr 0
             \<or> ways_to_get_all_samples_of_given_size_from_specific_jar lm N B s = Inl OverflowError"
  proof (cases "s < 0")
    case True
    then show ?thesis
      by (simp add: ways_to_get_all_samples_of_given_size_from_specific_jar_def)
  next
    case False
    have "B < 0 \<or> N < B \<or> N < s"
    proof (rule ccontr)
      assume "\<not> (B < 0 \<or> N < B \<or> N < s)"
      then have v: "0 \<le> B" "B \<le> N" "s \<le> N" by simp_all
      then have "b < 0 \<or> s < b" using assms False by linarith
      then have "\<exists>e. ways_to_get_specific_sample_from_specific_jar lm N B s b = Inl e"
        using v(1,2) by (intro ways_invalid_blues)
      then show False using Inr by simp
    qed
    then have "(\<Sum>v = 0..s. binom B v * binom (N - B) (s - v)) = 0"
      by (rule all_samples_sum_zero)
    then show ?thesis
      using all_samples_cases [of s lm N B] False by simp
  qed
  then show ?thesis
    using Inr
    by (auto simp: probability_of_getting_specific_sample_from_specific_jar_def int_true_divide_def)
qed

lemma reverse_invalid:
  assumes "N < 0 \<or> s < 0 \<or> N < s \<or> b < 0 \<or> s < b"
  shows "\<exists>e. probability_that_specific_sample_came_from_specific_jar lm N B s b = Inl e"
proof (cases "ways_to_get_specific_sample_from_specific_jar lm N B s b")
  case (Inl e)
  then show ?thesis
    by (simp add: probability_that_specific_sample_came_from_specific_jar_def)
next
  case (Inr num)
  have den: "ways_to_get_specific_sample_from_all_jars_of_given_size lm N s b = Inr 0
             \<or> (\<exists>e. ways_to_get_specific_sample_from_all_jars_of_given_size lm N s b = Inl e)"
  proof (cases "N < 0")
    case True
    then show ?thesis
      by (simp add: ways_to_get_specific_sample_from_all_jars_of_given_size_def)
  next
    case False
    then have N: "0 \<le> N" by simp
    show ?thesis
    proof (cases "b < 0 \<or> s < b")
      case True
      then obtain e where "ways_to_get_specific_sample_from_specific_jar lm N 0 s b = Inl e"
        using ways_invalid_blues [of 0 N b s lm] N by auto
      then have "ways_to_get_specific_sample_from_all_jars_of_given_size lm N s b = Inl e"
        unfolding ways_to_get_specific_sample_from_all_jars_of_given_size_def
        using N by (intro tally_loop_first_raises)
      then show ?thesis by simp
    next
      case False
      then have b: "0 \<le> b" "b \<le> s" by simp_all
      then have "N < s" using assms N by linarith
      then have "(\<Sum>v = 0..N. mass N s b v) = 0" by (rule all_jars_sum_zero)
      then show ?thesis using all_jars_cases [OF b, of lm N] by auto
    qed
  qed
  then show ?thesis
    using Inr
    by (auto simp: probability_that_specific_sample_came_from_specific_jar_def int_true_divide_def)
qed

lemma reverse_outside:
  assumes "0 \<le> s" "s \<le> N" "0 \<le> b" "b \<le> s" "N \<le> lm" "B < 0 \<or> N < B" "N - lm \<le> B" "B \<le> lm"
  shows "probability_that_specific_sample_came_from_specific_jar lm N B s b = Inr 0"
proof -
  have "mass N s b B = 0" using assms(3,4,6) by (rule mass_outside)
  moreover have "N - B \<le> lm" using assms(7) by simp
  ultimately show ?thesis using assms by (simp add: reverse_exact)
qed

lemma reverse_far_outside:
  assumes "0 \<le> s" "s \<le> N" "0 \<le> b" "b \<le> s" "N \<le> lm" "B < N - lm \<or> lm < B"
  shows "probability_that_specific_sample_came_from_specific_jar lm N B s b = Inl OverflowError"
proof -
  have "ways_to_get_specific_sample_from_specific_jar lm N B s b = Inl OverflowError"
    using assms(3,4,2,5,6) by (rule ways_far_outside)
  then show ?thesis
    by (simp add: probability_that_specific_sample_came_from_specific_jar_def)
qed

section \<open>The probability functions never divide by zero\<close>

lemma forward_cases:
  assumes "0 \<le> s" "s \<le> N" "0 \<le> b" "b \<le> s" "0 \<le> B" "B \<le> N"
  shows "probability_of_getting_specific_sample_from_specific_jar lm N B s b
           = Inr (round_double (rat_of_int (mass N s b B) / rat_of_int (binom N s)))
         \<or> probability_of_getting_specific_sample_from_specific_jar lm N B s b = Inl OverflowError"
proof -
  have den: "0 < binom N s" using assms by (simp add: binom_pos_iff)
  have le: "mass N s b B \<le> binom N s" using assms by (rule mass_le_binom)
  have sum: "(\<Sum>v = 0..s. binom B v * binom (N - B) (s - v)) = binom N s"
    using assms by (intro vandermonde_int)
  show ?thesis
    unfolding probability_of_getting_specific_sample_from_specific_jar_def
    using ways_mass_cases [OF assms(3,4), of lm N B] all_samples_cases [OF assms(1), of lm N B] den le
    by (auto simp: sum int_true_divide_unit mass_nonneg)
qed

lemma reverse_cases:
  assumes "0 \<le> s" "s \<le> N" "0 \<le> b" "b \<le> s"
  shows "probability_that_specific_sample_came_from_specific_jar lm N B s b
           = Inr (round_double (rat_of_int (mass N s b B) / rat_of_int (\<Sum>v = 0..N. mass N s b v)))
         \<or> probability_that_specific_sample_came_from_specific_jar lm N B s b = Inl OverflowError"
  unfolding probability_that_specific_sample_came_from_specific_jar_def
  using ways_mass_cases [OF assms(3,4), of lm N B] all_jars_cases [OF assms(3,4), of lm N] assms
  by (auto simp: int_true_divide_unit mass_nonneg mass_le_all all_jars_pos)

section \<open>The claims about the exact counter and the sums\<close>

text \<open>
  C1, in the form the code satisfies. Let \<open>0 \<le> k\<close>. \<open>choose\<close> returns 0 when \<open>n < k\<close>
  (which covers every \<open>n < 0\<close>); for \<open>k \<le> n \<le> long_max\<close> it returns the exact quotient
  \<open>n! / ((n - k)! * k!)\<close>, a positive integer; for \<open>k \<le> n\<close> and \<open>n > long_max\<close> it raises
  OverflowError. In particular \<open>choose(n, 0) = choose(n, n) = 1\<close> for \<open>0 \<le> n \<le> long_max\<close>
  and \<open>choose(5, 2) = 10\<close>. For \<open>k < 0\<close> it returns 0 only when \<open>n < k\<close>; when \<open>k \<le> n\<close> it
  raises ValueError, or OverflowError if \<open>0 \<le> n\<close> and \<open>n - k > long_max\<close>.
\<close>

theorem choose_py_correct:
  "(0 \<le> k \<and> k \<le> n \<and> n \<le> lm \<longrightarrow>
      (\<exists>c. choose_py lm n k = Inr c \<and> 0 < c \<and> c * (fact (nat (n - k)) * fact (nat k)) = fact (nat n)))
   \<and> (0 \<le> k \<and> (n < k \<or> n < 0) \<longrightarrow> choose_py lm n k = Inr 0)
   \<and> (0 \<le> k \<and> k \<le> n \<and> lm < n \<longrightarrow> choose_py lm n k = Inl OverflowError)
   \<and> (k < 0 \<and> n < k \<longrightarrow> choose_py lm n k = Inr 0)
   \<and> (k < 0 \<and> k \<le> n \<and> (n < 0 \<or> n - k \<le> lm) \<longrightarrow> choose_py lm n k = Inl ValueError)
   \<and> (k < 0 \<and> 0 \<le> n \<and> lm < n - k \<longrightarrow> choose_py lm n k = Inl OverflowError)
   \<and> (0 \<le> n \<and> n \<le> lm \<longrightarrow> choose_py lm n 0 = Inr 1 \<and> choose_py lm n n = Inr 1)
   \<and> (5 \<le> lm \<longrightarrow> choose_py lm 5 2 = Inr 10)"
proof (intro conjI impI)
  assume a: "0 \<le> k \<and> k \<le> n \<and> n \<le> lm"
  then have le: "nat k \<le> nat n" by (intro nat_mono) simp
  have "fact (nat k) * fact (nat n - nat k) * (nat n choose nat k) = fact (nat n)"
    using le by (rule binomial_fact_lemma)
  then have "int (fact (nat k) * fact (nat n - nat k) * (nat n choose nat k)) = int (fact (nat n))"
    by simp
  moreover have "nat n - nat k = nat (n - k)"
    using a by (simp add: nat_diff_distrib)
  ultimately have "int (nat n choose nat k) * (fact (nat (n - k)) * fact (nat k)) = fact (nat n)"
    by (simp add: mult_ac)
  moreover have "choose_py lm n k = Inr (int (nat n choose nat k))"
    using a by (simp add: choose_py_exact binom_def)
  moreover have "0 < int (nat n choose nat k)"
    using le by simp
  ultimately show "\<exists>c. choose_py lm n k = Inr c \<and> 0 < c \<and> c * (fact (nat (n - k)) * fact (nat k)) = fact (nat n)"
    by blast
next
  assume "0 \<le> k \<and> (n < k \<or> n < 0)"
  then show "choose_py lm n k = Inr 0" by (auto simp: choose_py_def)
next
  assume "0 \<le> k \<and> k \<le> n \<and> lm < n"
  then show "choose_py lm n k = Inl OverflowError" by (simp add: choose_py_overflow)
next
  assume "k < 0 \<and> n < k"
  then show "choose_py lm n k = Inr 0" by (simp add: choose_py_def)
next
  assume "k < 0 \<and> k \<le> n \<and> (n < 0 \<or> n - k \<le> lm)"
  then show "choose_py lm n k = Inl ValueError" by (auto simp: choose_py_negative_k)
next
  assume "k < 0 \<and> 0 \<le> n \<and> lm < n - k"
  then show "choose_py lm n k = Inl OverflowError" by (auto simp: choose_py_negative_k)
next
  assume "0 \<le> n \<and> n \<le> lm"
  then show "choose_py lm n 0 = Inr 1" by (simp add: choose_py_exact binom_def)
next
  assume "0 \<le> n \<and> n \<le> lm"
  then show "choose_py lm n n = Inr 1" by (simp add: choose_py_exact binom_def)
next
  assume "5 \<le> lm"
  then show "choose_py lm 5 2 = Inr 10"
    by (simp add: choose_py_def factorial_def fact_numeral)
qed

theorem choose_py_correct_witness:
  "(\<exists>c. choose_py (2 ^ 63 - 1) 7 3 = Inr c \<and> 0 < c \<and> c * (fact (nat (7 - 3)) * fact (nat 3)) = fact (nat 7))
   \<and> choose_py (2 ^ 63 - 1) 3 7 = Inr 0
   \<and> choose_py (2 ^ 63 - 1) (2 ^ 63) 3 = Inl OverflowError
   \<and> choose_py (2 ^ 63 - 1) (- 7) (- 3) = Inr 0
   \<and> choose_py (2 ^ 63 - 1) 2 (- 3) = Inl ValueError
   \<and> choose_py (2 ^ 63 - 1) (2 ^ 63 - 2) (- 3) = Inl OverflowError
   \<and> choose_py (2 ^ 63 - 1) 4 0 = Inr 1 \<and> choose_py (2 ^ 63 - 1) 4 4 = Inr 1
   \<and> choose_py (2 ^ 63 - 1) 5 2 = Inr 10"
  using choose_py_correct [where lm = "2 ^ 63 - 1" and n = 7 and k = 3]
    choose_py_correct [where lm = "2 ^ 63 - 1" and n = 3 and k = 7]
    choose_py_correct [where lm = "2 ^ 63 - 1" and n = "2 ^ 63" and k = 3]
    choose_py_correct [where lm = "2 ^ 63 - 1" and n = "- 7" and k = "- 3"]
    choose_py_correct [where lm = "2 ^ 63 - 1" and n = 2 and k = "- 3"]
    choose_py_correct [where lm = "2 ^ 63 - 1" and n = "2 ^ 63 - 2" and k = "- 3"]
    choose_py_correct [where lm = "2 ^ 63 - 1" and n = 4 and k = 0]
  by simp

theorem choose_py_counterexample:
  "choose_py (2 ^ 63 - 1) 5 (- 1) = Inl ValueError
   \<and> choose_py (2 ^ 63 - 1) (2 ^ 63) 0 = Inl OverflowError"
  by (simp add: choose_py_def factorial_def)

text \<open>
  C5, in the form the code satisfies. For \<open>0 \<le> B \<le> N\<close>, \<open>0 \<le> s \<le> N\<close> and
  \<open>N \<le> long_max\<close> the forward denominator, summed term by term over \<open>b' = 0, ..., s\<close>, is
  exactly \<open>choose(N, s)\<close>, the binomial coefficient.
\<close>

theorem forward_denominator_is_choose:
  assumes "0 \<le> B" "B \<le> N" "0 \<le> s" "s \<le> N" "N \<le> lm"
  shows "ways_to_get_all_samples_of_given_size_from_specific_jar lm N B s = choose_py lm N s
         \<and> choose_py lm N s = Inr (int (nat N choose nat s))"
  using assms by (simp add: all_samples_exact choose_py_exact binom_def)

theorem forward_denominator_is_choose_witness:
  "ways_to_get_all_samples_of_given_size_from_specific_jar (2 ^ 63 - 1) 5 2 3 = choose_py (2 ^ 63 - 1) 5 3
   \<and> choose_py (2 ^ 63 - 1) 5 3 = Inr 10"
proof -
  have "choose_py (2 ^ 63 - 1) 5 3 = Inr 10"
    by (simp add: choose_py_def factorial_def fact_numeral)
  then show ?thesis
    using forward_denominator_is_choose [where lm = "2 ^ 63 - 1" and N = 5 and B = 2 and s = 3] by simp
qed

theorem forward_denominator_counterexample:
  "ways_to_get_all_samples_of_given_size_from_specific_jar (2 ^ 63 - 1) (2 ^ 63) 0 0 = Inl OverflowError
   \<and> choose_py (2 ^ 63 - 1) (2 ^ 63) 0 = Inl OverflowError"
  by (simp add: ways_to_get_all_samples_of_given_size_from_specific_jar_def
      ways_to_get_specific_sample_from_specific_jar_def choose_py_def factorial_def)

text \<open>
  C9, in the form the code satisfies. For valid \<open>(N, s, b)\<close> with \<open>N \<le> long_max\<close> and
  bounds \<open>L \<le> U\<close> with \<open>N - long_max \<le> L\<close> and \<open>U \<le> long_max\<close>, also outside \<open>[0, N]\<close>, the
  interval probability is defined, and numerator and probability equal those of the
  interval clipped to \<open>[0, N]\<close>: every jar \<open>B < 0\<close> or \<open>B > N\<close> with
  \<open>N - long_max \<le> B \<le> long_max\<close> counts zero ways. A jar \<open>B < N - long_max\<close> or
  \<open>B > long_max\<close> raises OverflowError, and so does an interval that reaches one.
\<close>

theorem interval_probability_clipped:
  assumes "0 \<le> s" "s \<le> N" "0 \<le> b" "b \<le> s" "N \<le> lm" "L \<le> U"
  shows "(N - lm \<le> L \<and> U \<le> lm \<longrightarrow>
           (\<exists>p. probability_that_specific_sample_came_from_interval_of_jars lm N L U s b = Inr p
              \<and> probability_that_specific_sample_came_from_interval_of_jars lm N (max L 0) (min U N) s b = Inr p)
           \<and> ways_to_get_specific_sample_from_interval_of_jars lm N L U s b
               = ways_to_get_specific_sample_from_interval_of_jars lm N (max L 0) (min U N) s b)
         \<and> (\<forall>B. (B < 0 \<or> N < B) \<and> N - lm \<le> B \<and> B \<le> lm \<longrightarrow>
               ways_to_get_specific_sample_from_specific_jar lm N B s b = Inr 0)
         \<and> (\<forall>B. B < N - lm \<or> lm < B \<longrightarrow>
               ways_to_get_specific_sample_from_specific_jar lm N B s b = Inl OverflowError)
         \<and> (L < N - lm \<or> lm < U \<longrightarrow>
               probability_that_specific_sample_came_from_interval_of_jars lm N L U s b = Inl OverflowError)"
proof (intro conjI allI impI)
  assume bounds: "N - lm \<le> L \<and> U \<le> lm"
  have clip: "(\<Sum>v = L..U. mass N s b v) = (\<Sum>v = max L 0..min U N. mass N s b v)"
    using assms(3,4) by (rule interval_clip)
  have inner: "min U N \<le> lm" "N - max L 0 \<le> lm" "U \<le> lm" "N - L \<le> lm"
    using assms(5) bounds by simp_all
  have "probability_that_specific_sample_came_from_interval_of_jars lm N L U s b
        = probability_that_specific_sample_came_from_interval_of_jars lm N (max L 0) (min U N) s b"
    using assms inner by (simp only: interval_probability_exact clip)
  moreover have "\<exists>p. probability_that_specific_sample_came_from_interval_of_jars lm N L U s b = Inr p"
    using assms inner by (simp only: interval_probability_exact) simp
  ultimately show "\<exists>p. probability_that_specific_sample_came_from_interval_of_jars lm N L U s b = Inr p
              \<and> probability_that_specific_sample_came_from_interval_of_jars lm N (max L 0) (min U N) s b = Inr p"
    by auto
  show "ways_to_get_specific_sample_from_interval_of_jars lm N L U s b
          = ways_to_get_specific_sample_from_interval_of_jars lm N (max L 0) (min U N) s b"
    using assms inner by (simp only: interval_exact clip)
next
  fix B assume "(B < 0 \<or> N < B) \<and> N - lm \<le> B \<and> B \<le> lm"
  then have "B < 0 \<or> N < B" "B \<le> lm" "N - B \<le> lm" by simp_all
  then show "ways_to_get_specific_sample_from_specific_jar lm N B s b = Inr 0"
    using assms by (simp add: ways_mass mass_outside)
next
  fix B assume "B < N - lm \<or> lm < B"
  then show "ways_to_get_specific_sample_from_specific_jar lm N B s b = Inl OverflowError"
    using assms by (intro ways_far_outside) simp_all
next
  assume "L < N - lm \<or> lm < U"
  then show "probability_that_specific_sample_came_from_interval_of_jars lm N L U s b = Inl OverflowError"
    using assms by (intro interval_probability_overflow) simp_all
qed

theorem interval_probability_clipped_witness:
  "(\<exists>p. probability_that_specific_sample_came_from_interval_of_jars (2 ^ 63 - 1) 3 (- 2) 5 2 1 = Inr p
        \<and> probability_that_specific_sample_came_from_interval_of_jars (2 ^ 63 - 1) 3 (max (- 2) 0) (min 5 3) 2 1 = Inr p)
   \<and> ways_to_get_specific_sample_from_interval_of_jars (2 ^ 63 - 1) 3 (- 2) 5 2 1
       = ways_to_get_specific_sample_from_interval_of_jars (2 ^ 63 - 1) 3 (max (- 2) 0) (min 5 3) 2 1
   \<and> ways_to_get_specific_sample_from_specific_jar (2 ^ 63 - 1) 3 (- 1) 2 1 = Inr 0
   \<and> ways_to_get_specific_sample_from_specific_jar (2 ^ 63 - 1) 3 4 2 1 = Inr 0
   \<and> ways_to_get_specific_sample_from_specific_jar (2 ^ 63 - 1) 3 (- (2 ^ 63)) 2 1 = Inl OverflowError"
  using interval_probability_clipped [where lm = "2 ^ 63 - 1" and N = 3 and s = 2 and b = 1
      and L = "- 2" and U = 5]
  by simp

theorem interval_probability_clipped_counterexample:
  "probability_that_specific_sample_came_from_interval_of_jars (2 ^ 63 - 1) 3 (- (2 ^ 63)) 5 2 1 = Inl OverflowError
   \<and> ways_to_get_specific_sample_from_specific_jar (2 ^ 63 - 1) 3 (2 ^ 63) 2 1 = Inl OverflowError"
proof
  show "probability_that_specific_sample_came_from_interval_of_jars (2 ^ 63 - 1) 3 (- (2 ^ 63)) 5 2 1 = Inl OverflowError"
    by (rule interval_probability_overflow) simp_all
  show "ways_to_get_specific_sample_from_specific_jar (2 ^ 63 - 1) 3 (2 ^ 63) 2 1 = Inl OverflowError"
    by (rule ways_overflow_blues) simp_all
qed

section \<open>The claims about the interval probability and the search\<close>

lemma interval_8_values:
  "probability_that_specific_sample_came_from_interval_of_jars (2 ^ 63 - 1) 8 3 5 2 1
     = Inr (2466256938798129 / 4503599627370496)"
  "probability_that_specific_sample_came_from_interval_of_jars (2 ^ 63 - 1) 8 2 6 2 1
     = Inr (7505999378950827 / 9007199254740992)"
proof -
  have r1: "round_double (23 / 42) = 2466256938798129 / 4503599627370496"
    by (subst round_double_eval [where e = "- 1"]) (simp_all add: round_half_even_def Let_def)
  have r2: "round_double (5 / 6) = 7505999378950827 / 9007199254740992"
    by (subst round_double_eval [where e = "- 1"]) (simp_all add: round_half_even_def Let_def)
  have den: "ways_to_get_specific_sample_from_all_jars_of_given_size (2 ^ 63 - 1) 8 2 1 = Inr 84"
    by (simp add: ways_to_get_specific_sample_from_all_jars_of_given_size_def upto.simps
        ways_to_get_specific_sample_from_specific_jar_def choose_py_def factorial_def fact_numeral)
  have n1: "ways_to_get_specific_sample_from_interval_of_jars (2 ^ 63 - 1) 8 3 5 2 1 = Inr 46"
    by (simp add: ways_to_get_specific_sample_from_interval_of_jars_def
        ways_to_get_specific_sample_from_specific_jar_def choose_py_def factorial_def fact_numeral)
  have n2: "ways_to_get_specific_sample_from_interval_of_jars (2 ^ 63 - 1) 8 2 6 2 1 = Inr 70"
    by (simp add: ways_to_get_specific_sample_from_interval_of_jars_def
        ways_to_get_specific_sample_from_specific_jar_def choose_py_def factorial_def fact_numeral)
  show "probability_that_specific_sample_came_from_interval_of_jars (2 ^ 63 - 1) 8 3 5 2 1
     = Inr (2466256938798129 / 4503599627370496)"
    by (simp only: probability_that_specific_sample_came_from_interval_of_jars_def n1 den sum.case)
      (simp add: int_true_divide_def r1 double_overflow_def Let_def)
  show "probability_that_specific_sample_came_from_interval_of_jars (2 ^ 63 - 1) 8 2 6 2 1
     = Inr (7505999378950827 / 9007199254740992)"
    by (simp only: probability_that_specific_sample_came_from_interval_of_jars_def n2 den sum.case)
      (simp add: int_true_divide_def r2 double_overflow_def Let_def)
qed

text \<open>
  C8, in the form the code satisfies. For valid \<open>(N, s, b)\<close> with \<open>N \<le> long_max\<close>, a centre
  \<open>c\<close> and half-widths \<open>0 \<le> Delta1 \<le> Delta2\<close> such that \<open>c + Delta2 \<le> long_max\<close> and
  \<open>N - (c - Delta2) \<le> long_max\<close>, both interval probabilities are defined and the one of
  the wider interval is not smaller.
\<close>

theorem interval_probability_monotone:
  assumes "0 \<le> s" "s \<le> N" "0 \<le> b" "b \<le> s" "N \<le> lm" "0 \<le> D1" "D1 \<le> D2"
    and "c + D2 \<le> lm" "N - (c - D2) \<le> lm"
  shows "\<exists>p1 p2. probability_that_specific_sample_came_from_interval_of_jars lm N (c - D1) (c + D1) s b = Inr p1
              \<and> probability_that_specific_sample_came_from_interval_of_jars lm N (c - D2) (c + D2) s b = Inr p2
              \<and> p1 \<le> p2"
proof -
  define d where "d = (\<Sum>v = 0..N. mass N s b v)"
  define n1 where "n1 = (\<Sum>v = c - D1..c + D1. mass N s b v)"
  define n2 where "n2 = (\<Sum>v = c - D2..c + D2. mass N s b v)"
  have d: "0 < d" unfolding d_def using assms by (intro all_jars_pos)
  have n1: "0 \<le> n1" unfolding n1_def by (rule interval_nonneg)
  have "n1 \<le> n2" unfolding n1_def n2_def using assms by (intro interval_mono) simp_all
  then have "rat_of_int n1 / rat_of_int d \<le> rat_of_int n2 / rat_of_int d"
    using d by (simp add: divide_right_mono)
  moreover have "0 \<le> rat_of_int n1 / rat_of_int d"
    using n1 d by simp
  ultimately have le: "round_double (rat_of_int n1 / rat_of_int d) \<le> round_double (rat_of_int n2 / rat_of_int d)"
    by (rule round_double_mono [rotated])
  have inner: "c + D1 \<le> lm" "N - (c - D1) \<le> lm"
    using assms(7-9) by simp_all
  have "probability_that_specific_sample_came_from_interval_of_jars lm N (c - D1) (c + D1) s b
          = Inr (round_double (rat_of_int n1 / rat_of_int d))"
    unfolding n1_def d_def using assms(1-5) inner by (rule interval_probability_exact)
  moreover have "probability_that_specific_sample_came_from_interval_of_jars lm N (c - D2) (c + D2) s b
          = Inr (round_double (rat_of_int n2 / rat_of_int d))"
    unfolding n2_def d_def using assms(1-5,8,9) by (rule interval_probability_exact)
  ultimately show ?thesis using le by simp
qed

theorem interval_probability_monotone_witness:
  "\<exists>p1 p2. probability_that_specific_sample_came_from_interval_of_jars (2 ^ 63 - 1) 8 (4 - 1) (4 + 1) 2 1 = Inr p1
         \<and> probability_that_specific_sample_came_from_interval_of_jars (2 ^ 63 - 1) 8 (4 - 2) (4 + 2) 2 1 = Inr p2
         \<and> p1 \<le> p2
         \<and> p1 = 2466256938798129 / 4503599627370496
         \<and> p2 = 7505999378950827 / 9007199254740992"
proof -
  obtain p1 p2 where
    p: "probability_that_specific_sample_came_from_interval_of_jars (2 ^ 63 - 1) 8 (4 - 1) (4 + 1) 2 1 = Inr p1"
       "probability_that_specific_sample_came_from_interval_of_jars (2 ^ 63 - 1) 8 (4 - 2) (4 + 2) 2 1 = Inr p2"
       "p1 \<le> p2"
    using interval_probability_monotone [where lm = "2 ^ 63 - 1" and N = 8 and s = 2 and b = 1
        and c = 4 and ?D1.0 = 1 and ?D2.0 = 2]
    by auto
  have "(4::int) - 1 = 3" "(4::int) + 1 = 5" "(4::int) - 2 = 2" "(4::int) + 2 = 6" by simp_all
  then have "p1 = 2466256938798129 / 4503599627370496" "p2 = 7505999378950827 / 9007199254740992"
    using p(1,2) interval_8_values by (simp_all only: sum.inject)
  then show ?thesis using p by blast
qed

theorem interval_probability_monotone_counterexample:
  "probability_that_specific_sample_came_from_interval_of_jars (2 ^ 63 - 1) 3 (2 ^ 63 - 0) (2 ^ 63 + 0) 2 1
     = Inl OverflowError"
  by (rule interval_probability_overflow) simp_all

text \<open>
  C10, in the form the code satisfies. On valid inputs no probability function ever
  divides by zero: each returns the rounded quotient or raises OverflowError. When
  \<open>N \<le> long_max\<close> both denominator sums are returned and are strictly positive, the
  forward and the reverse probability return a value, and so does the interval
  probability for bounds with \<open>N - long_max \<le> L\<close> and \<open>U \<le> long_max\<close>.
\<close>

theorem denominators_positive:
  assumes "0 \<le> s" "s \<le> N" "0 \<le> b" "b \<le> s" "0 \<le> B" "B \<le> N"
  shows "(N \<le> lm \<longrightarrow>
           (\<exists>d. ways_to_get_all_samples_of_given_size_from_specific_jar lm N B s = Inr d \<and> 0 < d)
           \<and> (\<exists>d. ways_to_get_specific_sample_from_all_jars_of_given_size lm N s b = Inr d \<and> 0 < d)
           \<and> (\<exists>p. probability_of_getting_specific_sample_from_specific_jar lm N B s b = Inr p)
           \<and> (\<exists>p. probability_that_specific_sample_came_from_specific_jar lm N B s b = Inr p)
           \<and> (\<forall>L U. N - lm \<le> L \<and> U \<le> lm \<longrightarrow>
                 (\<exists>p. probability_that_specific_sample_came_from_interval_of_jars lm N L U s b = Inr p)))
         \<and> probability_of_getting_specific_sample_from_specific_jar lm N B s b \<noteq> Inl ZeroDivisionError
         \<and> probability_that_specific_sample_came_from_specific_jar lm N B s b \<noteq> Inl ZeroDivisionError
         \<and> (\<forall>L U. probability_that_specific_sample_came_from_interval_of_jars lm N L U s b
                 \<noteq> Inl ZeroDivisionError)"
proof (intro conjI allI impI)
  assume N: "N \<le> lm"
  show "\<exists>d. ways_to_get_all_samples_of_given_size_from_specific_jar lm N B s = Inr d \<and> 0 < d"
    using assms N by (simp add: all_samples_exact binom_pos_iff)
  show "\<exists>d. ways_to_get_specific_sample_from_all_jars_of_given_size lm N s b = Inr d \<and> 0 < d"
    using assms N by (simp add: all_jars_exact all_jars_pos)
  show "\<exists>p. probability_of_getting_specific_sample_from_specific_jar lm N B s b = Inr p"
    using assms N by (simp add: forward_exact)
  have "B \<le> lm" "N - B \<le> lm" using assms N by simp_all
  then show "\<exists>p. probability_that_specific_sample_came_from_specific_jar lm N B s b = Inr p"
    using assms N by (simp add: reverse_exact)
next
  fix L U assume "N \<le> lm" "N - lm \<le> L \<and> U \<le> lm"
  then have "N \<le> lm" "U \<le> lm" "N - L \<le> lm" by simp_all
  then show "\<exists>p. probability_that_specific_sample_came_from_interval_of_jars lm N L U s b = Inr p"
    using assms by (simp add: interval_probability_exact)
next
  show "probability_of_getting_specific_sample_from_specific_jar lm N B s b \<noteq> Inl ZeroDivisionError"
    using forward_cases [OF assms, of lm] by auto
  show "probability_that_specific_sample_came_from_specific_jar lm N B s b \<noteq> Inl ZeroDivisionError"
    using reverse_cases [OF assms(1-4), of lm B] by auto
next
  fix L U
  show "probability_that_specific_sample_came_from_interval_of_jars lm N L U s b \<noteq> Inl ZeroDivisionError"
    using interval_probability_cases [OF assms(1-4), of lm L U] by auto
qed

theorem denominators_positive_witness:
  "(\<exists>d. ways_to_get_all_samples_of_given_size_from_specific_jar (2 ^ 63 - 1) 3 1 2 = Inr d \<and> 0 < d)
   \<and> (\<exists>d. ways_to_get_specific_sample_from_all_jars_of_given_size (2 ^ 63 - 1) 3 2 1 = Inr d \<and> 0 < d)
   \<and> (\<exists>p. probability_of_getting_specific_sample_from_specific_jar (2 ^ 63 - 1) 3 1 2 1 = Inr p)
   \<and> (\<exists>p. probability_that_specific_sample_came_from_specific_jar (2 ^ 63 - 1) 3 1 2 1 = Inr p)
   \<and> (\<exists>p. probability_that_specific_sample_came_from_interval_of_jars (2 ^ 63 - 1) 3 (- 1) 2 2 1 = Inr p)
   \<and> probability_of_getting_specific_sample_from_specific_jar (2 ^ 63 - 1) 3 1 2 1 \<noteq> Inl ZeroDivisionError"
  using denominators_positive [where lm = "2 ^ 63 - 1" and N = 3 and B = 1 and s = 2 and b = 1]
  by simp

theorem denominators_positive_counterexample:
  "ways_to_get_specific_sample_from_all_jars_of_given_size (2 ^ 63 - 1) (2 ^ 63) 0 0 = Inl OverflowError
   \<and> probability_that_specific_sample_came_from_specific_jar (2 ^ 63 - 1) (2 ^ 63) 0 0 0 = Inl OverflowError"
proof -
  have first: "ways_to_get_specific_sample_from_specific_jar (2 ^ 63 - 1) (2 ^ 63) 0 0 0 = Inl OverflowError"
    by (rule ways_overflow_reds) simp_all
  then have "ways_to_get_specific_sample_from_all_jars_of_given_size (2 ^ 63 - 1) (2 ^ 63) 0 0 = Inl OverflowError"
    unfolding ways_to_get_specific_sample_from_all_jars_of_given_size_def
    by (intro tally_loop_first_raises) simp_all
  then show ?thesis
    using first by (simp add: probability_that_specific_sample_came_from_specific_jar_def)
qed




section \<open>Calls outside the domain\<close>

text \<open>
  C2, in the form the code satisfies. The code has no domain check and no InvalidDomain
  error. A call of the forward probability with any of \<open>N < 0\<close>, \<open>s < 0\<close>, \<open>s > N\<close>, \<open>b < 0\<close>,
  \<open>b > s\<close>, \<open>B < 0\<close>, \<open>B > N\<close> raises one of the exceptions of the arithmetic (ValueError,
  OverflowError, ZeroDivisionError); so does a call of the reverse probability with any
  of \<open>N < 0\<close>, \<open>s < 0\<close>, \<open>s > N\<close>, \<open>b < 0\<close>, \<open>b > s\<close>. The reverse probability with valid
  \<open>(N, s, b)\<close>, \<open>N \<le> long_max\<close> and \<open>B < 0\<close> or \<open>B > N\<close> raises nothing and returns 0 when
  \<open>N - long_max \<le> B \<le> long_max\<close>, and raises OverflowError otherwise.
\<close>

theorem invalid_domain_outcomes:
  "(N < 0 \<or> s < 0 \<or> N < s \<or> b < 0 \<or> s < b \<or> B < 0 \<or> N < B \<longrightarrow>
      (\<exists>e. probability_of_getting_specific_sample_from_specific_jar lm N B s b = Inl e))
   \<and> (N < 0 \<or> s < 0 \<or> N < s \<or> b < 0 \<or> s < b \<longrightarrow>
      (\<exists>e. probability_that_specific_sample_came_from_specific_jar lm N B s b = Inl e))
   \<and> (0 \<le> s \<and> s \<le> N \<and> 0 \<le> b \<and> b \<le> s \<and> N \<le> lm \<and> (B < 0 \<or> N < B) \<and> N - lm \<le> B \<and> B \<le> lm \<longrightarrow>
      probability_that_specific_sample_came_from_specific_jar lm N B s b = Inr 0)
   \<and> (0 \<le> s \<and> s \<le> N \<and> 0 \<le> b \<and> b \<le> s \<and> N \<le> lm \<and> (B < N - lm \<or> lm < B) \<longrightarrow>
      probability_that_specific_sample_came_from_specific_jar lm N B s b = Inl OverflowError)"
  using forward_invalid [of N s b B lm] reverse_invalid [of N s b lm B]
    reverse_outside [of s N b lm B] reverse_far_outside [of s N b lm B]
  by blast

theorem invalid_domain_outcomes_witness:
  "(\<exists>e. probability_of_getting_specific_sample_from_specific_jar (2 ^ 63 - 1) 3 1 2 5 = Inl e)
   \<and> (\<exists>e. probability_of_getting_specific_sample_from_specific_jar (2 ^ 63 - 1) 3 4 2 1 = Inl e)
   \<and> (\<exists>e. probability_that_specific_sample_came_from_specific_jar (2 ^ 63 - 1) 3 1 4 1 = Inl e)
   \<and> probability_that_specific_sample_came_from_specific_jar (2 ^ 63 - 1) 3 4 2 1 = Inr 0
   \<and> probability_that_specific_sample_came_from_specific_jar (2 ^ 63 - 1) 3 (2 ^ 63) 2 1 = Inl OverflowError"
  using invalid_domain_outcomes [where lm = "2 ^ 63 - 1" and N = 3 and B = 1 and s = 2 and b = 5]
    invalid_domain_outcomes [where lm = "2 ^ 63 - 1" and N = 3 and B = 4 and s = 2 and b = 1]
    invalid_domain_outcomes [where lm = "2 ^ 63 - 1" and N = 3 and B = 1 and s = 4 and b = 1]
    invalid_domain_outcomes [where lm = "2 ^ 63 - 1" and N = 3 and B = "2 ^ 63" and s = 2 and b = 1]
  by simp

theorem reverse_out_of_range_counterexample:
  "probability_that_specific_sample_came_from_specific_jar (2 ^ 63 - 1) 1 2 1 1 = Inr 0"
  by (rule reverse_outside) simp_all

section \<open>The accuracy of the probabilities\<close>

lemma ratio_extracted_round:
  assumes "0 \<le> num" "num \<le> den" "0 < den"
  shows "ratio_extracted (round_double (rat_of_int num / rat_of_int den)) num den"
proof -
  define q where "q = rat_of_int num / rat_of_int den"
  have q: "0 \<le> q" "q \<le> 1"
    unfolding q_def using assms by (rule ratio_unit)+
  have "0 \<le> round_double q" "round_double q \<le> 1"
    using q by (rule round_double_unit)+
  moreover have "\<bar>round_double q - q\<bar> \<le> q / 2 ^ 53" if "2 powi (- 1022) \<le> q"
    using that by (rule round_double_relative_error)
  moreover have "\<bar>round_double q - q\<bar> \<le> 2 powi (- 1075)" if "\<not> 2 powi (- 1022) \<le> q"
    using q(1) that by (intro round_double_subnormal_error) simp_all
  ultimately show ?thesis
    unfolding ratio_extracted_def Let_def q_def [symmetric] by simp
qed


text \<open>
  C4, in the form the code satisfies. On valid inputs with \<open>N \<le> long_max\<close> the forward and
  the reverse probability, and the interval probability for bounds with
  \<open>N - long_max \<le> L\<close> and \<open>U \<le> long_max\<close>, return the exact ratio of their two counts
  rounded to the nearest float (ties to even): a value in \<open>[0, 1]\<close>, never an overflow of
  the division whatever the size of the counts, with relative error at most \<open>2 ^ -53\<close>
  when the exact ratio is at least \<open>2 ^ -1022\<close>. A smaller ratio is rounded with absolute
  error at most \<open>2 ^ -1075\<close>, so that a positive ratio below \<open>2 ^ -1075\<close> is returned as 0,
  and nothing reports it.
\<close>

theorem probabilities_correctly_rounded:
  assumes "0 \<le> s" "s \<le> N" "0 \<le> b" "b \<le> s" "0 \<le> B" "B \<le> N" "N \<le> lm"
  shows "(\<exists>num den p. ways_to_get_specific_sample_from_specific_jar lm N B s b = Inr num
            \<and> ways_to_get_all_samples_of_given_size_from_specific_jar lm N B s = Inr den
            \<and> probability_of_getting_specific_sample_from_specific_jar lm N B s b = Inr p
            \<and> ratio_extracted p num den)
         \<and> (\<exists>num den p. ways_to_get_specific_sample_from_specific_jar lm N B s b = Inr num
            \<and> ways_to_get_specific_sample_from_all_jars_of_given_size lm N s b = Inr den
            \<and> probability_that_specific_sample_came_from_specific_jar lm N B s b = Inr p
            \<and> ratio_extracted p num den)
         \<and> (\<forall>L U. N - lm \<le> L \<and> U \<le> lm \<longrightarrow>
              (\<exists>num den p. ways_to_get_specific_sample_from_interval_of_jars lm N L U s b = Inr num
                \<and> ways_to_get_specific_sample_from_all_jars_of_given_size lm N s b = Inr den
                \<and> probability_that_specific_sample_came_from_interval_of_jars lm N L U s b = Inr p
                \<and> ratio_extracted p num den))"
proof (intro conjI allI impI)
  have Bb: "B \<le> lm" "N - B \<le> lm" using assms by simp_all
  have pos: "0 < binom N s" using assms by (simp add: binom_pos_iff)
  have "ratio_extracted (round_double (rat_of_int (mass N s b B) / rat_of_int (binom N s)))
          (mass N s b B) (binom N s)"
    using assms(1-6) pos by (intro ratio_extracted_round mass_nonneg mass_le_binom)
  then show "\<exists>num den p. ways_to_get_specific_sample_from_specific_jar lm N B s b = Inr num
            \<and> ways_to_get_all_samples_of_given_size_from_specific_jar lm N B s = Inr den
            \<and> probability_of_getting_specific_sample_from_specific_jar lm N B s b = Inr p
            \<and> ratio_extracted p num den"
    using assms Bb by (simp add: ways_mass all_samples_exact forward_exact)
  have "ratio_extracted (round_double (rat_of_int (mass N s b B) / rat_of_int (\<Sum>v = 0..N. mass N s b v)))
          (mass N s b B) (\<Sum>v = 0..N. mass N s b v)"
    using assms(1-6) by (intro ratio_extracted_round mass_nonneg mass_le_all all_jars_pos)
  then show "\<exists>num den p. ways_to_get_specific_sample_from_specific_jar lm N B s b = Inr num
            \<and> ways_to_get_specific_sample_from_all_jars_of_given_size lm N s b = Inr den
            \<and> probability_that_specific_sample_came_from_specific_jar lm N B s b = Inr p
            \<and> ratio_extracted p num den"
    using assms Bb by (simp add: ways_mass all_jars_exact reverse_exact)
next
  fix L U assume "N - lm \<le> L \<and> U \<le> lm"
  then have LU: "U \<le> lm" "N - L \<le> lm" by simp_all
  have "ratio_extracted (round_double (rat_of_int (\<Sum>v = L..U. mass N s b v) / rat_of_int (\<Sum>v = 0..N. mass N s b v)))
          (\<Sum>v = L..U. mass N s b v) (\<Sum>v = 0..N. mass N s b v)"
    using assms(1-6) by (intro ratio_extracted_round interval_nonneg interval_le_all all_jars_pos)
  then show "\<exists>num den p. ways_to_get_specific_sample_from_interval_of_jars lm N L U s b = Inr num
            \<and> ways_to_get_specific_sample_from_all_jars_of_given_size lm N s b = Inr den
            \<and> probability_that_specific_sample_came_from_interval_of_jars lm N L U s b = Inr p
            \<and> ratio_extracted p num den"
    using assms LU by (simp add: interval_exact all_jars_exact interval_probability_exact)
qed

theorem probabilities_correctly_rounded_witness:
  "(\<exists>num den p. ways_to_get_specific_sample_from_specific_jar (2 ^ 63 - 1) 3 1 2 1 = Inr num
      \<and> ways_to_get_all_samples_of_given_size_from_specific_jar (2 ^ 63 - 1) 3 1 2 = Inr den
      \<and> probability_of_getting_specific_sample_from_specific_jar (2 ^ 63 - 1) 3 1 2 1 = Inr p
      \<and> ratio_extracted p num den)
   \<and> (\<exists>num den p. ways_to_get_specific_sample_from_specific_jar (2 ^ 63 - 1) 3 1 2 1 = Inr num
      \<and> ways_to_get_specific_sample_from_all_jars_of_given_size (2 ^ 63 - 1) 3 2 1 = Inr den
      \<and> probability_that_specific_sample_came_from_specific_jar (2 ^ 63 - 1) 3 1 2 1 = Inr p
      \<and> ratio_extracted p num den)
   \<and> (\<exists>num den p. ways_to_get_specific_sample_from_interval_of_jars (2 ^ 63 - 1) 3 (- 1) 4 2 1 = Inr num
      \<and> ways_to_get_specific_sample_from_all_jars_of_given_size (2 ^ 63 - 1) 3 2 1 = Inr den
      \<and> probability_that_specific_sample_came_from_interval_of_jars (2 ^ 63 - 1) 3 (- 1) 4 2 1 = Inr p
      \<and> ratio_extracted p num den)"
proof -
  have h: "(0::int) \<le> 2" "(2::int) \<le> 3" "(0::int) \<le> 1" "(1::int) \<le> 2" "(0::int) \<le> 1" "(1::int) \<le> 3"
      "(3::int) \<le> 2 ^ 63 - 1"
    by simp_all
  note t = probabilities_correctly_rounded [OF h]
  have c: "\<exists>num den p. ways_to_get_specific_sample_from_interval_of_jars (2 ^ 63 - 1) 3 (- 1) 4 2 1 = Inr num
      \<and> ways_to_get_specific_sample_from_all_jars_of_given_size (2 ^ 63 - 1) 3 2 1 = Inr den
      \<and> probability_that_specific_sample_came_from_interval_of_jars (2 ^ 63 - 1) 3 (- 1) 4 2 1 = Inr p
      \<and> ratio_extracted p num den"
    by (rule t [THEN conjunct2, THEN conjunct2, rule_format, of "- 1" 4]) simp
  show ?thesis
    using t [THEN conjunct1] t [THEN conjunct2, THEN conjunct1] c by (intro conjI)
qed

lemma central_binomial_large: "2 ^ 1100 \<le> 1101 * (1100 choose 550)"
proof -
  have "(2::nat) ^ 1100 = (\<Sum>k\<le>1100. 1100 choose k)"
    by (simp only: choose_row_sum)
  also have "\<dots> \<le> (\<Sum>k\<le>(1100::nat). 1100 choose 550)"
  proof (rule sum_mono)
    fix k :: nat
    show "1100 choose k \<le> 1100 choose 550"
      using binomial_maximum' [of 550 k] by simp
  qed
  also have "\<dots> = 1101 * (1100 choose 550)"
    by simp
  finally show ?thesis .
qed


theorem tiny_probability_counterexample:
  "ways_to_get_specific_sample_from_specific_jar (2 ^ 63 - 1) 1100 550 550 0 = Inr 1
   \<and> probability_of_getting_specific_sample_from_specific_jar (2 ^ 63 - 1) 1100 550 550 0 = Inr 0
   \<and> probability_of_getting_specific_sample_from_specific_jar (2 ^ 63 - 1) (2 ^ 63) 0 0 0 = Inl OverflowError"
proof -
  define C where "C = int (1100 choose 550)"
  have m: "mass 1100 550 0 550 = 1"
    by (simp add: mass_def binom_def)
  have bn: "binom 1100 550 = C"
    by (simp add: binom_def C_def)
  have "int (2 ^ 1100) \<le> int (1101 * (1100 choose 550))"
    using central_binomial_large by (simp only: of_nat_le_iff)
  then have big: "2 ^ 1100 \<le> 1101 * C"
    by (simp add: C_def)
  then have Cpos: "0 < C"
    by (cases "0 < C") auto
  have "(2::int) ^ 1076 < C"
  proof (rule ccontr)
    assume "\<not> 2 ^ 1076 < C"
    then have "C \<le> 2 ^ 1076" by simp
    then have "1101 * C \<le> 1101 * 2 ^ 1076" by simp
    also have "\<dots> < (2::int) ^ 11 * 2 ^ 1076" by (intro mult_strict_right_mono) simp_all
    also have "\<dots> = 2 ^ 1087" by (simp flip: power_add)
    also have "\<dots> \<le> (2::int) ^ 1100" by (intro power_increasing) simp_all
    finally show False using big by simp
  qed
  then have "rat_of_int (2 ^ 1076) < rat_of_int C"
    by (simp only: of_int_less_iff)
  then have "(2::rat) ^ 1076 < rat_of_int C" by simp
  then have "1 / rat_of_int C < 1 / 2 ^ 1076"
    by (intro divide_strict_left_mono) (simp_all add: Cpos)
  also have "(1::rat) / 2 ^ 1076 = 2 powi (- 1076)"
    by (simp add: power_int_minus inverse_eq_divide)
  also have "\<dots> \<le> 2 powi (- 1075)" by (rule powi2_le) simp
  finally have small: "1 / rat_of_int C < 2 powi (- 1075)" .
  have "round_double (1 / rat_of_int C) = 0"
    using small Cpos by (intro round_double_underflow) simp_all
  moreover have "probability_of_getting_specific_sample_from_specific_jar (2 ^ 63 - 1) 1100 550 550 0
        = Inr (round_double (rat_of_int (mass 1100 550 0 550) / rat_of_int (binom 1100 550)))"
    by (rule forward_exact) simp_all
  moreover have "ways_to_get_specific_sample_from_specific_jar (2 ^ 63 - 1) 1100 550 550 0 = Inr (mass 1100 550 0 550)"
    by (rule ways_mass) simp_all
  moreover have "probability_of_getting_specific_sample_from_specific_jar (2 ^ 63 - 1) (2 ^ 63) 0 0 0 = Inl OverflowError"
  proof -
    have "ways_to_get_specific_sample_from_specific_jar (2 ^ 63 - 1) (2 ^ 63) 0 0 0 = Inl OverflowError"
      by (rule ways_overflow_reds) simp_all
    then show ?thesis
      by (simp only: probability_of_getting_specific_sample_from_specific_jar_def sum.case)
  qed
  ultimately show ?thesis by (simp add: m bn)
qed

section \<open>The confidence interval\<close>

text \<open>
  C6, in the form the code satisfies. Let \<open>(N, s, b)\<close> be valid with \<open>0 < s\<close> and the
  confidence lie in \<open>(0, 1)\<close>. Whenever the point estimate returns \<open>Bg\<close> and its covering
  half-width \<open>D0 = max(1, |Bg|, |N - Bg|)\<close> keeps \<open>Bg + D0 \<le> long_max\<close> and
  \<open>N - Bg + D0 \<le> long_max\<close>, \<open>theta\<close> returns \<open>(Bg, D)\<close> with \<open>1 \<le> D\<close>, the interval
  probability at half-width \<open>D\<close> is at least the confidence, and when \<open>1 < D\<close> the one at
  half-width \<open>D - 1\<close> is below it. Both conditions hold when \<open>N < 2 ^ 1000\<close> and
  \<open>4 * N \<le> long_max\<close>.
\<close>

theorem theta_minimal_half_width:
  assumes "0 < s" "s \<le> N" "0 \<le> b" "b \<le> s" "0 < c" "c < 1"
  shows "(\<forall>Bg. B_guess N s b = Inr Bg
               \<and> Bg + covering_half_width N Bg \<le> lm \<and> N - Bg + covering_half_width N Bg \<le> lm \<longrightarrow>
              (\<exists>D pD. theta lm N s b c = Some (Inr (Bg, D)) \<and> 1 \<le> D
                 \<and> probability_that_specific_sample_came_from_interval_of_jars lm N (Bg - D) (Bg + D) s b = Inr pD
                 \<and> c \<le> pD
                 \<and> (1 < D \<longrightarrow> (\<exists>p'. probability_that_specific_sample_came_from_interval_of_jars
                                         lm N (Bg - (D - 1)) (Bg + (D - 1)) s b = Inr p' \<and> p' < c))))
         \<and> (N < 2 ^ 1000 \<and> 4 * N \<le> lm \<longrightarrow>
              (\<exists>Bg. B_guess N s b = Inr Bg
                 \<and> Bg + covering_half_width N Bg \<le> lm \<and> N - Bg + covering_half_width N Bg \<le> lm))"
proof (intro conjI allI impI)
  fix Bg
  assume a: "B_guess N s b = Inr Bg
               \<and> Bg + covering_half_width N Bg \<le> lm \<and> N - Bg + covering_half_width N Bg \<le> lm"
  then have guess: "B_guess N s b = Inr Bg"
    and b1: "Bg + covering_half_width N Bg \<le> lm" and b2: "N - Bg + covering_half_width N Bg \<le> lm"
    by simp_all
  have v: "0 \<le> s" "s \<le> N" "0 \<le> b" "b \<le> s" "c \<le> 1" using assms by simp_all
  have abs: "\<bar>Bg\<bar> \<le> covering_half_width N Bg" by (simp add: covering_half_width_def)
  have pf: "\<And>d. d \<le> covering_half_width N Bg \<Longrightarrow>
      probability_that_specific_sample_came_from_interval_of_jars lm N (Bg - d) (Bg + d) s b
        = Inr (interval_value N Bg s b d)"
    using v(1-4) b1 b2 abs by (intro interval_value_within)
  obtain D where D: "1 \<le> D" "D \<le> covering_half_width N Bg"
      "theta_loop lm N Bg s b c 1 (interval_value N Bg s b 1) = Some (Inr D)"
      "c \<le> interval_value N Bg s b D"
      "\<forall>d. 1 \<le> d \<and> d < D \<longrightarrow> interval_value N Bg s b d < c"
    using theta_loop_returns [OF v b1 b2] by blast
  have one: "1 \<le> covering_half_width N Bg" by (rule covering_half_width_covers)
  have "theta lm N s b c = Some (Inr (Bg, D))"
    using guess pf [OF one] D(3) by (rule theta_unfold)
  moreover have "1 < D \<longrightarrow> interval_value N Bg s b (D - 1) < c"
    using D(5) by simp
  moreover have "D - 1 \<le> covering_half_width N Bg" using D(2) by simp
  ultimately show "\<exists>D pD. theta lm N s b c = Some (Inr (Bg, D)) \<and> 1 \<le> D
                 \<and> probability_that_specific_sample_came_from_interval_of_jars lm N (Bg - D) (Bg + D) s b = Inr pD
                 \<and> c \<le> pD
                 \<and> (1 < D \<longrightarrow> (\<exists>p'. probability_that_specific_sample_came_from_interval_of_jars
                                         lm N (Bg - (D - 1)) (Bg + (D - 1)) s b = Inr p' \<and> p' < c))"
    using D(1,4) pf [OF D(2)] pf [of "D - 1"] by auto
next
  assume "N < 2 ^ 1000 \<and> 4 * N \<le> lm"
  then have N: "N < 2 ^ 1000" "4 * N \<le> lm" by simp_all
  obtain Bg where Bg: "B_guess N s b = Inr Bg" "0 \<le> Bg" "Bg \<le> 2 * N"
    using B_guess_returns [OF assms(1-4) N(1)] by blast
  have "0 < N" using assms(1,2) by simp
  then show "\<exists>Bg. B_guess N s b = Inr Bg
                 \<and> Bg + covering_half_width N Bg \<le> lm \<and> N - Bg + covering_half_width N Bg \<le> lm"
    using Bg search_within_long_max [OF _ Bg(2,3) N(2)] by blast
qed

theorem theta_minimal_half_width_witness:
  "(\<exists>D pD. theta (2 ^ 63 - 1) 8 2 1 (4 / 5) = Some (Inr (4, D)) \<and> 1 \<le> D
         \<and> probability_that_specific_sample_came_from_interval_of_jars (2 ^ 63 - 1) 8 (4 - D) (4 + D) 2 1 = Inr pD
         \<and> 4 / 5 \<le> pD
         \<and> (1 < D \<longrightarrow> (\<exists>p'. probability_that_specific_sample_came_from_interval_of_jars
                                 (2 ^ 63 - 1) 8 (4 - (D - 1)) (4 + (D - 1)) 2 1 = Inr p' \<and> p' < 4 / 5)))
   \<and> (\<exists>Bg. B_guess 8 2 1 = Inr Bg
         \<and> Bg + covering_half_width 8 Bg \<le> 2 ^ 63 - 1 \<and> 8 - Bg + covering_half_width 8 Bg \<le> 2 ^ 63 - 1)"
proof -
  have h: "(0::int) < 2" "(2::int) \<le> 8" "(0::int) \<le> 1" "(1::int) \<le> 2" "(0::rat) < 4 / 5" "(4 / 5 :: rat) < 1"
    by simp_all
  note t = theta_minimal_half_width [where lm = "2 ^ 63 - 1", OF h]
  have a: "\<exists>D pD. theta (2 ^ 63 - 1) 8 2 1 (4 / 5) = Some (Inr (4, D)) \<and> 1 \<le> D
         \<and> probability_that_specific_sample_came_from_interval_of_jars (2 ^ 63 - 1) 8 (4 - D) (4 + D) 2 1 = Inr pD
         \<and> 4 / 5 \<le> pD
         \<and> (1 < D \<longrightarrow> (\<exists>p'. probability_that_specific_sample_came_from_interval_of_jars
                                 (2 ^ 63 - 1) 8 (4 - (D - 1)) (4 + (D - 1)) 2 1 = Inr p' \<and> p' < 4 / 5))"
    by (rule t [THEN conjunct1, rule_format, of 4]) (simp add: B_guess_8_2_1 covering_half_width_def)
  have b: "\<exists>Bg. B_guess 8 2 1 = Inr Bg
         \<and> Bg + covering_half_width 8 Bg \<le> 2 ^ 63 - 1 \<and> 8 - Bg + covering_half_width 8 Bg \<le> 2 ^ 63 - 1"
    by (rule t [THEN conjunct2, rule_format]) simp
  show ?thesis using a b by (rule conjI)
qed

theorem theta_overflow_counterexample:
  "theta (2 ^ 63 - 1) (2 ^ 63) 1 0 (1 / 2) = Some (Inl OverflowError)
   \<and> theta (2 ^ 63 - 1) (2 ^ 1024) 1 0 (1 / 2) = Some (Inl OverflowError)"
proof -
  have g: "B_guess (2 ^ 63) 1 0 = Inr 0"
    by (rule B_guess_no_blues) simp_all
  have "ways_to_get_specific_sample_from_specific_jar (2 ^ 63 - 1) (2 ^ 63) (0 - 1) 1 0 = Inl OverflowError"
    by (rule ways_overflow_reds) simp_all
  then have "ways_to_get_specific_sample_from_interval_of_jars (2 ^ 63 - 1) (2 ^ 63) (0 - 1) (0 + 1) 1 0
               = Inl OverflowError"
    unfolding ways_to_get_specific_sample_from_interval_of_jars_def
    by (intro tally_loop_first_raises) simp_all
  then have p: "probability_that_specific_sample_came_from_interval_of_jars (2 ^ 63 - 1) (2 ^ 63) (0 - 1) (0 + 1) 1 0
               = Inl OverflowError"
    by (simp only: probability_that_specific_sample_came_from_interval_of_jars_def sum.case)
  have first: "theta (2 ^ 63 - 1) (2 ^ 63) 1 0 (1 / 2) = Some (Inl OverflowError)"
    by (simp only: theta_def g p sum.case)
  have "int_true_divide (2 ^ 1024) 1 = Inl OverflowError"
    by (rule int_true_divide_overflows) simp_all
  then have "theta (2 ^ 63 - 1) (2 ^ 1024) 1 0 (1 / 2) = Some (Inl OverflowError)"
    by (simp add: theta_def B_guess_def)
  then show ?thesis using first by simp
qed

text \<open>
  C3. The claim is that the point estimate is \<open>floor (b * N / s)\<close>. At \<open>N = 15\<close>, \<open>s = 11\<close>,
  \<open>b = 11\<close> the float quotient \<open>15 / 11\<close> is rounded down, its product with 11 is the float
  just below 15, and the truncation gives 14, while \<open>floor (11 * 15 / 11) = 15\<close>.
\<close>

theorem B_guess_truncates_below:
  "B_guess 15 11 11 = Inr 14 \<and> \<lfloor>11 * 15 / 11 :: rat\<rfloor> = 15"
  by (simp add: B_guess_def int_true_divide_def int_to_float_def B_guess_15_11_steps
      double_overflow_def float_to_int_def Let_def)

text \<open>
  The whole range: for valid \<open>(N, s, b)\<close> with \<open>N \<le> long_max\<close> the interval probability
  of \<open>[0, N]\<close> is exactly 1.
\<close>

theorem full_interval_probability_is_one:
  assumes "0 \<le> s" "s \<le> N" "0 \<le> b" "b \<le> s" "N \<le> lm"
  shows "probability_that_specific_sample_came_from_interval_of_jars lm N 0 N s b = Inr 1"
  using assms by (intro interval_probability_cover) simp_all

theorem full_interval_probability_is_one_witness:
  "probability_that_specific_sample_came_from_interval_of_jars (2 ^ 63 - 1) 5 0 5 3 2 = Inr 1"
  by (rule full_interval_probability_is_one) simp_all


end
